theory Spec2Isabelle
  imports Main "HOL-Library.Word"
begin

unbundle bit_operations_syntax

section \<open>Envelopes and panics\<close>

text \<open>
  A \<open>loggregator_v2.Envelope\<close> carries an int64 timestamp, a source id and a oneof
  message. The store only compares timestamps (\<open>utils.Int64Comparator\<close>) and never
  computes with them, so a timestamp is read as the integer it denotes. The message is
  modelled by what the getters \<open>GetLog\<close>, \<open>GetCounter\<close>, \<open>GetGauge\<close>, \<open>GetTimer\<close> and
  \<open>GetEvent\<close> observe: \<open>Some Log\<close> when \<open>GetLog() != nil\<close>, and so on; \<open>None\<close> when every
  getter returns nil. Envelope pointers handed to the store are taken to be non-nil.
\<close>

datatype message = Log | Counter | Gauge | Timer | Event

record Envelope =
  Timestamp :: int
  SourceId :: string
  Message :: "message option"

text \<open>The run-time panics of the Go code, as values.\<close>

datatype panic = NilDereference | IndexOutOfRange | UnknownType | TypeAssertion

section \<open>The routing hash (package hash/crc64, as used by setupRouting)\<close>

text \<open>
  \<open>setupRouting\<close> builds the hash of the routing table:
  \<^verbatim>\<open>
  tableECMA := crc64.MakeTable(crc64.ECMA)
  hasher := func(s string) uint64 { return crc64.Checksum([]byte(s), tableECMA) }
  \<close>
  \<open>crc64\<close> is Go's standard library: \<open>ECMA\<close> is the reflected polynomial,
  \<open>MakeTable\<close> fills entry \<open>i\<close> with eight shift-and-xor steps from \<open>i\<close>, and
  \<open>Checksum\<close> is \<open>update\<close> from 0, which complements the value before and after the
  bytes. A Go string is its bytes, as an Isabelle \<open>string\<close> is.
\<close>

definition ECMA :: "64 word" where
  "ECMA = 0xC96C5795D7870F42"

fun makeTableEntry :: "64 word \<Rightarrow> nat \<Rightarrow> 64 word \<Rightarrow> 64 word" where
  "makeTableEntry poly 0 crc = crc"
| "makeTableEntry poly (Suc j) crc =
     makeTableEntry poly j
       (if crc AND 1 = 1 then drop_bit 1 crc XOR poly else drop_bit 1 crc)"

definition MakeTable :: "64 word \<Rightarrow> 8 word \<Rightarrow> 64 word" where
  "MakeTable poly i = makeTableEntry poly 8 (ucast i)"

fun update :: "64 word \<Rightarrow> (8 word \<Rightarrow> 64 word) \<Rightarrow> 8 word list \<Rightarrow> 64 word" where
  "update crc tab [] = crc"
| "update crc tab (v # p) = update (tab (ucast crc XOR v) XOR drop_bit 8 crc) tab p"

definition Checksum :: "8 word list \<Rightarrow> (8 word \<Rightarrow> 64 word) \<Rightarrow> 64 word" where
  "Checksum data tab = NOT (update (NOT 0) tab data)"

definition hasher :: "string \<Rightarrow> 64 word" where
  "hasher s = Checksum (map of_char s) (MakeTable ECMA)"

section \<open>The batched ingress client (package routing)\<close>

text \<open>
  The messages of the peer RPC: \<open>rpc.SendRequest\<close> with its \<open>LocalOnly\<close> flag and its
  envelope batch, and the empty \<open>rpc.SendResponse\<close>. A context is the background context
  or a context with a timeout, a \<open>time.Duration\<close> in nanoseconds.
\<close>

record SendRequest =
  LocalOnly :: bool
  Envelopes :: "Envelope list"

datatype SendResponse = SendResponse

datatype Context = Background | WithTimeout Context int

definition Second :: int where
  "Second = 1000000000"

text \<open>
  \<open>rpc.IngressClient\<close>, the peer: its \<open>Send\<close> answers a request with an error or with none.
  The answer may differ from call to call, so the peer is a function of the number of
  calls made before, the context and the request.
\<close>

type_synonym IngressClient = "nat \<Rightarrow> Context \<Rightarrow> SendRequest \<Rightarrow> string option"

text \<open>
  What the client does to the world: the lines it logs (\<open>"dropped %d envelopes"\<close> and
  \<open>"failed to write envelope: %s"\<close>), the dropped-envelopes counter (the counter adds
  \<open>float64(dropped)\<close>, a whole number), and the requests it has sent to the peer.
\<close>

datatype log_entry = Dropped nat | FailedToWrite string

subsection \<open>The ring (package diodes, a dependency)\<close>

text \<open>
  \<open>diodes.OneToOne\<close> is a third-party ring buffer. It is given here as the library
  documents it: \<open>Set\<close> stores a bucket with the write index as its sequence number in
  slot \<open>writeIndex % len(buffer)\<close> and never waits; \<open>TryNext\<close> takes the bucket out of slot
  \<open>readIndex % len(buffer)\<close>, fails on an empty slot or a stale bucket, and when the
  writer has lapped the reader it moves the read index forward to the bucket's sequence
  number and alerts with the number of buckets passed over. \<open>TryNext\<close> returns the
  argument of that alert next to its result; the caller runs the alert function.
\<close>

record bucket =
  data :: Envelope
  seq :: nat

record OneToOne =
  buffer :: "bucket option list"
  writeIndex :: nat
  readIndex :: nat

definition NewOneToOne :: "nat \<Rightarrow> OneToOne" where
  "NewOneToOne n = \<lparr>buffer = replicate n None, writeIndex = 0, readIndex = 0\<rparr>"

definition OneToOne_Set :: "Envelope \<Rightarrow> OneToOne \<Rightarrow> OneToOne" where
  "OneToOne_Set d r =
     (let idx = writeIndex r mod length (buffer r);
          newBucket = \<lparr>data = d, seq = writeIndex r\<rparr>
      in r\<lparr>writeIndex := writeIndex r + 1, buffer := (buffer r)[idx := Some newBucket]\<rparr>)"

definition OneToOne_TryNext :: "OneToOne \<Rightarrow> Envelope option \<times> nat option \<times> OneToOne" where
  "OneToOne_TryNext r =
     (let idx = readIndex r mod length (buffer r);
          result = buffer r ! idx;
          r1 = r\<lparr>buffer := (buffer r)[idx := None]\<rparr>
      in case result of
           None \<Rightarrow> (None, None, r1)
         | Some b \<Rightarrow>
             if seq b < readIndex r then (None, None, r1)
             else if seq b > readIndex r
             then (Some (data b), Some (seq b - readIndex r), r1\<lparr>readIndex := seq b + 1\<rparr>)
             else (Some (data b), None, r1\<lparr>readIndex := readIndex r + 1\<rparr>))"

subsection \<open>The client\<close>

text \<open>
  The state of a running client: the ring \<open>b.buffer\<close>, the batch the batcher of \<open>start\<close>
  is holding, and the effects. The peer \<open>b.c\<close> and the batch size \<open>b.size\<close> do not change
  and are the arguments \<open>c\<close> and \<open>size_b\<close>. A batch is a slice of \<open>interface{}\<close>: an element is an envelope
  pointer or something else.
\<close>

datatype item = EnvelopeItem Envelope | OtherItem

record BatchedIngressClient =
  ring :: OneToOne
  pending :: "item list"
  logged :: "log_entry list"
  droppedMetric :: nat
  rpcs :: "(Context \<times> SendRequest) list"

text \<open>The alert function that \<open>NewBatchedIngressClient\<close> gives to the ring.\<close>

definition alert :: "nat \<Rightarrow> BatchedIngressClient \<Rightarrow> BatchedIngressClient" where
  "alert dropped b =
     b\<lparr>logged := logged b @ [Dropped dropped], droppedMetric := droppedMetric b + dropped\<rparr>"

text \<open>
  \<open>NewBatchedIngressClient\<close> makes a ring of 10000 slots; nothing is held, logged or sent
  yet. \<open>client_of\<close> is the same client around any ring.
\<close>

definition client_of :: "OneToOne \<Rightarrow> BatchedIngressClient" where
  "client_of r = \<lparr>ring = r, pending = [], logged = [], droppedMetric = 0, rpcs = []\<rparr>"


text \<open>
  \<open>Send\<close>: every envelope of the request is set on the ring; the answer is the empty
  response and no error.
\<close>

definition Send ::
  "SendRequest \<Rightarrow> BatchedIngressClient \<Rightarrow> BatchedIngressClient \<times> SendResponse \<times> string option" where
  "Send in' b = (b\<lparr>ring := fold OneToOne_Set (Envelopes in') (ring b)\<rparr>, SendResponse, None)"

text \<open>
  \<open>write\<close> (\<open>write'\<close> here, since \<open>write\<close> is a keyword): the type assertion of each
  element, then one \<open>Send\<close> to the peer under a context with a timeout of three
  seconds; an error is logged.
\<close>

fun assertEnvelopes :: "item list \<Rightarrow> panic + Envelope list" where
  "assertEnvelopes [] = Inr []"
| "assertEnvelopes (EnvelopeItem e # batch) =
     (case assertEnvelopes batch of Inl p \<Rightarrow> Inl p | Inr es \<Rightarrow> Inr (e # es))"
| "assertEnvelopes (OtherItem # batch) = Inl TypeAssertion"

definition write' ::
  "IngressClient \<Rightarrow> item list \<Rightarrow> BatchedIngressClient \<Rightarrow> panic + BatchedIngressClient" where
  "write' c batch b =
     (case assertEnvelopes batch of
        Inl p \<Rightarrow> Inl p
      | Inr e \<Rightarrow>
          let ctx = WithTimeout Background (3 * Second);
              req = \<lparr>LocalOnly = True, Envelopes = e\<rparr>;
              err = c (length (rpcs b)) ctx req;
              b1 = b\<lparr>rpcs := rpcs b @ [(ctx, req)]\<rparr>
          in Inr (case err of
                    None \<Rightarrow> b1
                  | Some msg \<Rightarrow> b1\<lparr>logged := logged b1 @ [FailedToWrite msg]\<rparr>))"

subsection \<open>The batcher (package batching, a dependency) and the flusher loop\<close>

text \<open>
  \<open>batching.Batcher\<close> is a third-party package: \<open>Write\<close> appends to the batch and hands
  it to the writer when it has reached the size or the interval has lapsed; \<open>Flush\<close>
  hands a batch that is not empty to the writer when the interval has lapsed. Whether
  the interval has lapsed is read from the clock; here it is an input of each call.
\<close>

definition writeBatch ::
  "IngressClient \<Rightarrow> BatchedIngressClient \<Rightarrow> panic + BatchedIngressClient" where
  "writeBatch c b =
     (if length (pending b) > 0
      then (case write' c (pending b) b of Inl p \<Rightarrow> Inl p | Inr b' \<Rightarrow> Inr (b'\<lparr>pending := []\<rparr>))
      else Inr b)"

definition Batcher_Write ::
  "IngressClient \<Rightarrow> int \<Rightarrow> bool \<Rightarrow> item \<Rightarrow> BatchedIngressClient \<Rightarrow> panic + BatchedIngressClient" where
  "Batcher_Write c size_b lapsed d b =
     (let b1 = b\<lparr>pending := pending b @ [d]\<rparr>
      in if int (length (pending b1)) \<ge> size_b \<or> lapsed then writeBatch c b1 else Inr b1)"

definition Batcher_Flush ::
  "IngressClient \<Rightarrow> bool \<Rightarrow> BatchedIngressClient \<Rightarrow> panic + BatchedIngressClient" where
  "Batcher_Flush c lapsed b = (if lapsed then writeBatch c b else Inr b)"

text \<open>
  One turn of the loop of \<open>start\<close>: \<open>TryNext\<close> on the ring (running the alert when the
  ring asks for it), then \<open>Flush\<close> when there was nothing to read and \<open>Write\<close> of the
  envelope otherwise.
\<close>

definition start_turn ::
  "IngressClient \<Rightarrow> int \<Rightarrow> bool \<Rightarrow> BatchedIngressClient \<Rightarrow> panic + BatchedIngressClient" where
  "start_turn c size_b lapsed b =
     (case OneToOne_TryNext (ring b) of
        (e, dropped, r) \<Rightarrow>
          let b1 = b\<lparr>ring := r\<rparr>;
              b2 = (case dropped of None \<Rightarrow> b1 | Some n \<Rightarrow> alert n b1)
          in case e of
               None \<Rightarrow> Batcher_Flush c lapsed b2
             | Some env \<Rightarrow> Batcher_Write c size_b lapsed (EnvelopeItem env) b2)"

text \<open>
  A run of the client: the callers' \<open>Send\<close> calls and the turns of the flusher, in the
  order in which they touch the ring. A \<open>Send\<close> that is overtaken by the flusher halfway
  is two \<open>Send\<close> events with the two halves of its batch.
\<close>

datatype event = Caller SendRequest | Flusher bool

fun run ::
  "IngressClient \<Rightarrow> int \<Rightarrow> event list \<Rightarrow> BatchedIngressClient \<Rightarrow> panic + BatchedIngressClient" where
  "run c size_b [] b = Inr b"
| "run c size_b (Caller in' # evs) b = run c size_b evs (fst (Send in' b))"
| "run c size_b (Flusher lapsed # evs) b =
     (case start_turn c size_b lapsed b of Inl p \<Rightarrow> Inl p | Inr b' \<Rightarrow> run c size_b evs b')"

text \<open>The errors the peer answers to a sequence of requests, as the lines \<open>write\<close> logs.\<close>

fun failures :: "IngressClient \<Rightarrow> nat \<Rightarrow> (Context \<times> SendRequest) list \<Rightarrow> log_entry list" where
  "failures c n [] = []"
| "failures c n ((ctx, req) # rs) =
     (case c n ctx req of None \<Rightarrow> [] | Some msg \<Rightarrow> [FailedToWrite msg]) @ failures c (Suc n) rs"

fun is_failure :: "log_entry \<Rightarrow> bool" where
  "is_failure (FailedToWrite msg) = True"
| "is_failure (Dropped n) = False"


text \<open>The envelopes that the turns of the flusher read from the ring in a run.\<close>

fun ring_reads :: "event list \<Rightarrow> OneToOne \<Rightarrow> Envelope list" where
  "ring_reads [] r = []"
| "ring_reads (Caller in' # evs) r = ring_reads evs (fold OneToOne_Set (Envelopes in') r)"
| "ring_reads (Flusher lapsed # evs) r =
     (case OneToOne_TryNext r of
        (e, dropped, r') \<Rightarrow> (case e of None \<Rightarrow> [] | Some env \<Rightarrow> [env]) @ ring_reads evs r')"

section \<open>The ordered tree (package avltree)\<close>

text \<open>
  \<open>avltree.Node\<close> with its fields \<open>Key\<close>, \<open>Value\<close> and \<open>Children[0]\<close>, \<open>Children[1]\<close>;
  \<open>NilNode\<close> is the nil pointer. The keys are int64 under \<open>utils.Int64Comparator\<close>.
  The package is a third-party dependency of the repository. Its operations \<open>Put\<close>,
  \<open>Get\<close>, \<open>Remove\<close>, \<open>Left\<close> and \<open>Size\<close> are given here as the search-tree operations on
  the node structure that \<open>treeTraverse\<close> walks: \<open>Put\<close> replaces the value of a key that is
  present, \<open>Remove\<close> of a node with a right child moves the minimum of the right subtree
  up. The rotations that rebalance the tree are left out: they change the shape of a
  tree and not its in-order sequence, and every result below is stated for all search
  trees, whatever their shape.
\<close>

datatype 'v node =
  NilNode
  | Node (Key: int) (Value: 'v) (Child0: "'v node") (Child1: "'v node")

fun entries :: "'v node \<Rightarrow> (int \<times> 'v) list" where
  "entries NilNode = []"
| "entries (Node k v c0 c1) = entries c0 @ (k, v) # entries c1"

fun tree_Size :: "'v node \<Rightarrow> nat" where
  "tree_Size NilNode = 0"
| "tree_Size (Node k v c0 c1) = Suc (tree_Size c0 + tree_Size c1)"

fun tree_Get :: "int \<Rightarrow> 'v node \<Rightarrow> 'v option" where
  "tree_Get key NilNode = None"
| "tree_Get key (Node k v c0 c1) =
     (if key < k then tree_Get key c0
      else if k < key then tree_Get key c1
      else Some v)"

fun tree_Put :: "int \<Rightarrow> 'v \<Rightarrow> 'v node \<Rightarrow> 'v node" where
  "tree_Put key val NilNode = Node key val NilNode NilNode"
| "tree_Put key val (Node k v c0 c1) =
     (if key < k then Node k v (tree_Put key val c0) c1
      else if k < key then Node k v c0 (tree_Put key val c1)
      else Node key val c0 c1)"

fun tree_Left :: "'v node \<Rightarrow> (int \<times> 'v) option" where
  "tree_Left NilNode = None"
| "tree_Left (Node k v NilNode c1) = Some (k, v)"
| "tree_Left (Node k v (Node k' v' c0' c1') c1) = tree_Left (Node k' v' c0' c1')"

fun removeMin :: "int \<Rightarrow> 'v \<Rightarrow> 'v node \<Rightarrow> 'v node \<Rightarrow> (int \<times> 'v) \<times> 'v node" where
  "removeMin k v NilNode c1 = ((k, v), c1)"
| "removeMin k v (Node k' v' c0' c1') c1 =
     (case removeMin k' v' c0' c1' of (m, c0) \<Rightarrow> (m, Node k v c0 c1))"

fun tree_Remove :: "int \<Rightarrow> 'v node \<Rightarrow> 'v node" where
  "tree_Remove key NilNode = NilNode"
| "tree_Remove key (Node k v c0 c1) =
     (if key < k then Node k v (tree_Remove key c0) c1
      else if k < key then Node k v c0 (tree_Remove key c1)
      else (case c1 of
              NilNode \<Rightarrow> c0
            | Node k1 v1 c10 c11 \<Rightarrow>
                (case removeMin k1 v1 c10 c11 of ((mk, mv), c1') \<Rightarrow> Node mk mv c0 c1')))"

text \<open>The search-tree property: keys strictly increase along the in-order sequence.\<close>

fun bst :: "'v node \<Rightarrow> bool" where
  "bst NilNode = True"
| "bst (Node k v c0 c1) =
     (bst c0 \<and> bst c1 \<and> list_all (\<lambda>x. fst x < k) (entries c0)
      \<and> list_all (\<lambda>x. k < fst x) (entries c1))"

section \<open>The store (package store)\<close>

text \<open>
  \<open>envelopeWrapper\<close>: the envelope together with the index it was put under.
\<close>

datatype envelopeWrapper = EnvelopeWrapper (e_of: Envelope) (index_of: string)

text \<open>
  The store holds pointers to \<open>avltree.Tree\<close> objects in two places: the \<open>indexes\<close> map
  and the slices inside \<open>oldestValueTree\<close>. \<open>treeStorage.Remove\<close> compares those pointers
  (\<open>v == t\<close>). So a tree pointer is an address, \<open>trees\<close> is the memory that holds the
  tree objects, and \<open>next_addr\<close> is the next address \<open>avltree.NewWith\<close> returns. The metrics
  \<open>Expired\<close>, \<open>Ingress\<close> and \<open>Egress\<close> are counters of the state. The \<open>CachePeriod\<close> gauge is
  computed from the wall clock and is not part of the state; the read of
  \<open>oldestValueTree.Left()\<close> that feeds it is kept, since it can panic.
\<close>

type_synonym addr = nat

record Store =
  size' :: int
  maxPerSource :: int
  trees :: "addr \<Rightarrow> envelopeWrapper node"
  next_addr :: addr
  indexes :: "string \<rightharpoonup> addr"
  oldestValueTree :: "addr list node"
  count :: int
  expired :: nat
  ingress :: nat
  egress :: nat

definition NewStore :: "int \<Rightarrow> int \<Rightarrow> Store" where
  "NewStore sz mps =
     \<lparr>size' = sz, maxPerSource = mps, trees = (\<lambda>a. NilNode), next_addr = 0,
      indexes = Map.empty, oldestValueTree = NilNode, count = 0,
      expired = 0, ingress = 0, egress = 0\<rparr>"

subsection \<open>treeStorage\<close>

definition treeStorage_Put :: "int \<Rightarrow> addr \<Rightarrow> addr list node \<Rightarrow> addr list node" where
  "treeStorage_Put key t st =
     (let values = (case tree_Get key st of Some existing \<Rightarrow> existing | None \<Rightarrow> [])
      in tree_Put key (values @ [t]) st)"

definition treeStorage_Remove :: "int \<Rightarrow> addr \<Rightarrow> addr list node \<Rightarrow> addr list node" where
  "treeStorage_Remove key t st =
     (let values = (case tree_Get key st of Some existing \<Rightarrow> existing | None \<Rightarrow> []);
          values' = remove1 t values
      in if length values' = 0 then tree_Remove key st else tree_Put key values' st)"

definition treeStorage_Left :: "addr list node \<Rightarrow> panic + (int \<times> addr)" where
  "treeStorage_Left st =
     (case tree_Left st of
        None \<Rightarrow> Inl NilDereference
      | Some (k, vs) \<Rightarrow> (case vs of [] \<Rightarrow> Inl IndexOutOfRange | t # _ \<Rightarrow> Inr (k, t)))"

subsection \<open>truncate\<close>

definition truncate :: "Store \<Rightarrow> panic + Store" where
  "truncate s =
     (if count s \<le> size' s then Inr s
      else
        let s1 = s\<lparr>count := count s - 1, expired := expired s + 1\<rparr> in
        case treeStorage_Left (oldestValueTree s1) of
          Inl p \<Rightarrow> Inl p
        | Inr (key, oldTree) \<Rightarrow>
            let st1 = treeStorage_Remove key oldTree (oldestValueTree s1) in
            (case tree_Left (trees s1 oldTree) of
               None \<Rightarrow> Inl NilDereference
             | Some (lk, lw) \<Rightarrow>
                 let index = index_of lw;
                     t' = tree_Remove key (trees s1 oldTree) in
                 if tree_Size t' = 0
                 then Inr (s1\<lparr>oldestValueTree := st1,
                               trees := (trees s1)(oldTree := t'),
                               indexes := (indexes s1)(index := None)\<rparr>)
                 else (case tree_Left t' of
                         None \<Rightarrow> Inl NilDereference
                       | Some (nk, nw) \<Rightarrow>
                           Inr (s1\<lparr>trees := (trees s1)(oldTree := t'),
                                    oldestValueTree := treeStorage_Put nk oldTree st1\<rparr>))))"

subsection \<open>Put\<close>

text \<open>
  \<open>Put_insert\<close> is the body of \<open>Store.Put\<close> up to the call of \<open>truncate\<close> (lines 63 to
  102): the index is looked up or created, a full index loses its oldest entry,
  \<open>t.Put\<close> stores the wrapper under the envelope's timestamp (replacing an entry with
  the same timestamp), \<open>count\<close> grows by the change of the tree's size, and the tree is
  registered anew when its oldest key changed.
\<close>

definition Put_insert :: "Envelope \<Rightarrow> string \<Rightarrow> Store \<Rightarrow> panic + Store" where
  "Put_insert e index s0 =
     (let s1 = s0\<lparr>ingress := ingress s0 + 1\<rparr>;
          (t, s2) =
            (case indexes s1 index of
               Some t \<Rightarrow> (t, s1)
             | None \<Rightarrow>
                 (next_addr s1,
                  s1\<lparr>trees := (trees s1)(next_addr s1 := NilNode),
                      next_addr := Suc (next_addr s1),
                      indexes := (indexes s1)(index \<mapsto> next_addr s1),
                      oldestValueTree :=
                        treeStorage_Put (Timestamp e) (next_addr s1) (oldestValueTree s1)\<rparr>));
          (oldest, hasOldest) =
            (case tree_Left (trees s2 t) of Some (k, w) \<Rightarrow> (k, True) | None \<Rightarrow> (0, False));
          preSize = tree_Size (trees s2 t);
          full = (int preSize \<ge> maxPerSource s2);
          tr1 = (if full then tree_Remove oldest (trees s2 t) else trees s2 t);
          tr2 = tree_Put (Timestamp e) (EnvelopeWrapper e index) tr1;
          s3 = s2\<lparr>trees := (trees s2)(t := tr2),
                   expired := (if full then expired s2 + 1 else expired s2),
                   count := count s2 + (int (tree_Size tr2) - int preSize)\<rparr>
      in case tree_Left tr2 of
           None \<Rightarrow> Inl NilDereference
         | Some (newOldest, w) \<Rightarrow>
             if oldest \<noteq> newOldest \<and> hasOldest
             then Inr (s3\<lparr>oldestValueTree :=
                            treeStorage_Put newOldest t
                              (treeStorage_Remove oldest t (oldestValueTree s3))\<rparr>)
             else Inr s3)"

definition Put :: "Envelope \<Rightarrow> string \<Rightarrow> Store \<Rightarrow> panic + Store" where
  "Put e index s =
     (case Put_insert e index s of
        Inl p \<Rightarrow> Inl p
      | Inr s1 \<Rightarrow>
          (case truncate s1 of
             Inl p \<Rightarrow> Inl p
           | Inr s2 \<Rightarrow>
               (case treeStorage_Left (oldestValueTree s2) of
                  Inl p \<Rightarrow> Inl p
                | Inr (oldestValue, t) \<Rightarrow> Inr s2)))"

text \<open>A sequence of \<open>Put\<close> calls; a panic ends it.\<close>

fun puts :: "(Envelope \<times> string) list \<Rightarrow> Store \<Rightarrow> panic + Store" where
  "puts [] s = Inr s"
| "puts ((e, index) # ps) s =
     (case Put e index s of Inl p \<Rightarrow> Inl p | Inr s' \<Rightarrow> puts ps s')"

subsection \<open>Get\<close>

text \<open>
  \<open>EnvelopeType\<close> is \<open>interface{}\<close>: nil, a pointer to one of the five message types, or
  a value of any other dynamic type.
\<close>

datatype EnvelopeType =
  NilType | LogType | CounterType | GaugeType | TimerType | EventType | OtherType

definition checkEnvelopeType :: "Envelope \<Rightarrow> EnvelopeType \<Rightarrow> panic + bool" where
  "checkEnvelopeType e t =
     (case t of
        NilType \<Rightarrow> Inr True
      | LogType \<Rightarrow> Inr (Message e = Some Log)
      | CounterType \<Rightarrow> Inr (Message e = Some Counter)
      | GaugeType \<Rightarrow> Inr (Message e = Some Gauge)
      | TimerType \<Rightarrow> Inr (Message e = Some Timer)
      | EventType \<Rightarrow> Inr (Message e = Some Event)
      | OtherType \<Rightarrow> Inl UnknownType)"

text \<open>
  \<open>treeTraverse\<close>: the visitor \<open>f\<close> of the source appends to a slice it has captured;
  here it takes the slice and returns it with its verdict. A panic of the visitor ends
  the traversal.
\<close>

fun treeTraverse ::
  "envelopeWrapper node \<Rightarrow> int \<Rightarrow> int \<Rightarrow>
   (Envelope \<Rightarrow> string \<Rightarrow> 'r \<Rightarrow> panic + (bool \<times> 'r)) \<Rightarrow> 'r \<Rightarrow> panic + (bool \<times> 'r)" where
  "treeTraverse NilNode start end' f res = Inr (False, res)"
| "treeTraverse (Node t w c0 c1) start end' f res =
     (if t \<ge> start
      then (case treeTraverse c0 start end' f res of
              Inl p \<Rightarrow> Inl p
            | Inr (True, res1) \<Rightarrow> Inr (True, res1)
            | Inr (False, res1) \<Rightarrow>
                if t \<ge> end' then Inr (True, res1)
                else (case f (e_of w) (index_of w) res1 of
                        Inl p \<Rightarrow> Inl p
                      | Inr (True, res2) \<Rightarrow> Inr (True, res2)
                      | Inr (False, res2) \<Rightarrow> treeTraverse c1 start end' f res2))
      else treeTraverse c1 start end' f res)"

text \<open>
  The visitor of \<open>Get\<close>. \<open>&&\<close> evaluates \<open>checkEnvelopeType\<close> only when the wrapper's
  index is the requested one.
\<close>

definition Get_visit ::
  "string \<Rightarrow> EnvelopeType \<Rightarrow> int \<Rightarrow> Envelope \<Rightarrow> string \<Rightarrow> Envelope list \<Rightarrow>
   panic + (bool \<times> Envelope list)" where
  "Get_visit index envelopeType limit e idx res =
     (if idx = index
      then (case checkEnvelopeType e envelopeType of
              Inl p \<Rightarrow> Inl p
            | Inr ok \<Rightarrow>
                let res' = (if ok then res @ [e] else res)
                in Inr (int (length res') \<ge> limit, res'))
      else Inr (int (length res) \<ge> limit, res))"

text \<open>
  \<open>Get\<close>: \<open>start\<close> and \<open>end'\<close> are the \<open>UnixNano\<close> values of the two times. It returns the
  slice and the store with its \<open>Egress\<close> counter advanced.
\<close>

definition Get ::
  "string \<Rightarrow> int \<Rightarrow> int \<Rightarrow> EnvelopeType \<Rightarrow> int \<Rightarrow> Store \<Rightarrow> panic + (Envelope list \<times> Store)" where
  "Get index start end' envelopeType limit s =
     (case indexes s index of
        None \<Rightarrow> Inr ([], s)
      | Some t \<Rightarrow>
          (case treeTraverse (trees s t) start end' (Get_visit index envelopeType limit) [] of
             Inl p \<Rightarrow> Inl p
           | Inr (stopped, res) \<Rightarrow> Inr (res, s\<lparr>egress := egress s + length res\<rparr>)))"

section \<open>The invariant of the store\<close>

text \<open>The trees registered in \<open>oldestValueTree\<close> under a key (none when the key is absent).\<close>

definition registered :: "addr list node \<Rightarrow> int \<Rightarrow> addr list" where
  "registered st k = (case tree_Get k st of Some vs \<Rightarrow> vs | None \<Rightarrow> [])"

text \<open>The oldest timestamp of an index: the key of \<open>t.Left()\<close>.\<close>

definition min_key :: "'v node \<Rightarrow> int option" where
  "min_key t = map_option fst (tree_Left t)"

text \<open>
  The tree of the index \<open>src\<close>: a search tree that is not empty and whose wrappers carry
  \<open>src\<close> and sit under the timestamp of their envelope.
\<close>

definition index_ok :: "string \<Rightarrow> envelopeWrapper node \<Rightarrow> bool" where
  "index_ok src t \<longleftrightarrow>
     bst t \<and> t \<noteq> NilNode \<and>
     (\<forall>k w. tree_Get k t = Some w \<longrightarrow> index_of w = src \<and> Timestamp (e_of w) = k)"

text \<open>
  The \<open>indexes\<close> map: finitely many sources, distinct sources have distinct trees, and
  every tree has been allocated and is well formed.
\<close>

definition idx_inv :: "Store \<Rightarrow> bool" where
  "idx_inv s \<longleftrightarrow>
     finite (dom (indexes s)) \<and>
     inj_on (indexes s) (dom (indexes s)) \<and>
     (\<forall>src t. indexes s src = Some t \<longrightarrow> t < next_addr s \<and> index_ok src (trees s t))"

text \<open>
  \<open>oldestValueTree\<close>: a search tree without empty slices, in which no tree is listed
  twice under a key, and a tree is listed under a key exactly when it is the tree of
  some index and the key is its oldest timestamp.
\<close>

definition ovt_ok :: "addr list node \<Rightarrow> bool" where
  "ovt_ok st \<longleftrightarrow> bst st \<and> (\<forall>k. tree_Get k st \<noteq> Some [])"

definition reg_inv ::
  "(string \<rightharpoonup> addr) \<Rightarrow> (addr \<Rightarrow> envelopeWrapper node) \<Rightarrow> addr list node \<Rightarrow> bool" where
  "reg_inv ix tr st \<longleftrightarrow>
     ovt_ok st \<and>
     (\<forall>k. distinct (registered st k)) \<and>
     (\<forall>k t. t \<in> set (registered st k) \<longleftrightarrow> t \<in> ran ix \<and> min_key (tr t) = Some k)"

text \<open>\<open>count\<close> is the number of envelopes held: the sum of the sizes of the indexes.\<close>

definition tsize :: "(string \<rightharpoonup> addr) \<Rightarrow> (addr \<Rightarrow> envelopeWrapper node) \<Rightarrow> int" where
  "tsize ix tr = (\<Sum>src \<in> dom ix. int (tree_Size (tr (the (ix src)))))"

definition total_size :: "Store \<Rightarrow> int" where
  "total_size s = tsize (indexes s) (trees s)"

definition store_inv :: "Store \<Rightarrow> bool" where
  "store_inv s \<longleftrightarrow>
     idx_inv s \<and> reg_inv (indexes s) (trees s) (oldestValueTree s) \<and> count s = total_size s"

text \<open>
  The bound on an index that \<open>Put\<close> maintains: \<open>maxPerSource\<close>, and one entry at least,
  since \<open>Put\<close> always stores the envelope it is given.
\<close>

definition bounded :: "Store \<Rightarrow> bool" where
  "bounded s \<longleftrightarrow>
     (\<forall>src a. indexes s src = Some a \<longrightarrow>
        int (tree_Size (trees s a)) \<le> max 1 (maxPerSource s))"

section \<open>Observations used in the examples\<close>

text \<open>\<open>buildEnvelope\<close> of the store's tests: an envelope without a message.\<close>

definition buildEnvelope :: "int \<Rightarrow> string \<Rightarrow> Envelope" where
  "buildEnvelope timestamp sourceID =
     \<lparr>Timestamp = timestamp, SourceId = sourceID, Message = None\<rparr>"

text \<open>\<open>buildTypedEnvelope\<close> of the store's tests: an envelope with a message of a kind.\<close>

definition buildTypedEnvelope :: "int \<Rightarrow> string \<Rightarrow> message \<Rightarrow> Envelope" where
  "buildTypedEnvelope timestamp sourceID t =
     \<lparr>Timestamp = timestamp, SourceId = sourceID, Message = Some t\<rparr>"

text \<open>The timestamps an index holds, oldest first, and how many they are.\<close>

definition index_keys :: "Store \<Rightarrow> string \<Rightarrow> int list" where
  "index_keys s src =
     (case indexes s src of None \<Rightarrow> [] | Some a \<Rightarrow> map fst (entries (trees s a)))"

definition index_size :: "Store \<Rightarrow> string \<Rightarrow> nat" where
  "index_size s src = (case indexes s src of None \<Rightarrow> 0 | Some a \<Rightarrow> tree_Size (trees s a))"

section \<open>The truncation loop of the specification\<close>

text \<open>
  The specification words truncation as a loop with a pruning quota: while
  \<open>count > size\<close> and quota remains, remove the globally oldest envelope. This is that
  loop, with the removal of the source (\<open>truncate\<close>) as its body, to be compared with
  \<open>truncate\<close> itself, which takes no quota.
\<close>

fun spec_truncate :: "nat \<Rightarrow> Store \<Rightarrow> panic + Store" where
  "spec_truncate 0 s = Inr s"
| "spec_truncate (Suc quota) s =
     (if size' s < count s
      then (case truncate s of Inl p \<Rightarrow> Inl p | Inr s' \<Rightarrow> spec_truncate quota s')
      else Inr s)"

section \<open>Reachable states, and the traversal as a scan of the in-order sequence\<close>

text \<open>The states of a store: created by \<open>NewStore\<close>, then changed by \<open>Put\<close> and \<open>Get\<close>.\<close>

inductive reachable :: "Store \<Rightarrow> bool" where
  reachable_NewStore: "reachable (NewStore sz mps)"
| reachable_Put: "reachable s \<Longrightarrow> Put e index s = Inr s' \<Longrightarrow> reachable s'"
| reachable_Get:
    "reachable s \<Longrightarrow> Get index start end' envelopeType limit s = Inr (res, s') \<Longrightarrow> reachable s'"

text \<open>
  What \<open>treeTraverse\<close> does on a search tree, told on the in-order sequence of its
  entries: entries before \<open>start\<close> are passed over, the first entry at or after \<open>end'\<close>
  stops the scan, and the visitor sees every entry in between until it says stop.
\<close>

fun scan ::
  "(int \<times> envelopeWrapper) list \<Rightarrow> int \<Rightarrow> int \<Rightarrow>
   (Envelope \<Rightarrow> string \<Rightarrow> 'r \<Rightarrow> panic + (bool \<times> 'r)) \<Rightarrow> 'r \<Rightarrow> panic + (bool \<times> 'r)" where
  "scan [] start end' f res = Inr (False, res)"
| "scan ((t, w) # xs) start end' f res =
     (if t \<ge> start
      then (if t \<ge> end' then Inr (True, res)
            else (case f (e_of w) (index_of w) res of
                    Inl p \<Rightarrow> Inl p
                  | Inr (True, res2) \<Rightarrow> Inr (True, res2)
                  | Inr (False, res2) \<Rightarrow> scan xs start end' f res2))
      else scan xs start end' f res)"

text \<open>
  The envelopes of a sequence of entries that a \<open>Get\<close> asks for: in the window, put
  under the requested index, and of the requested type.
\<close>

definition wanted :: "string \<Rightarrow> EnvelopeType \<Rightarrow> int \<Rightarrow> int \<Rightarrow> int \<times> envelopeWrapper \<Rightarrow> bool" where
  "wanted index envelopeType start end' x \<longleftrightarrow>
     start \<le> fst x \<and> fst x < end' \<and> index_of (snd x) = index \<and>
     checkEnvelopeType (e_of (snd x)) envelopeType = Inr True"

definition matches ::
  "string \<Rightarrow> EnvelopeType \<Rightarrow> int \<Rightarrow> int \<Rightarrow> (int \<times> envelopeWrapper) list \<Rightarrow> Envelope list" where
  "matches index envelopeType start end' xs =
     map (\<lambda>x. e_of (snd x)) (filter (wanted index envelopeType start end') xs)"

section \<open>Stores of the tests\<close>

text \<open>
  The stores that the tests of \<open>Get\<close> build, with this code's \<open>NewStore(size, maxPerSource)\<close>:
  timestamps 1 to 4 for "a"; the same with timestamp 2 under "b"; one typed envelope of
  each kind for "a"; and a single envelope for "a".
\<close>

definition store_a1234 :: Store where
  "store_a1234 =
     projr (puts [(buildEnvelope 1 ''a'', ''a''), (buildEnvelope 2 ''a'', ''a''),
                  (buildEnvelope 3 ''a'', ''a''), (buildEnvelope 4 ''a'', ''a'')] (NewStore 5 10))"

definition store_a134_b2 :: Store where
  "store_a134_b2 =
     projr (puts [(buildEnvelope 1 ''a'', ''a''), (buildEnvelope 2 ''b'', ''b''),
                  (buildEnvelope 3 ''a'', ''a''), (buildEnvelope 4 ''a'', ''a'')] (NewStore 5 10))"

definition store_typed :: Store where
  "store_typed =
     projr (puts [(buildTypedEnvelope 1 ''a'' Log, ''a''), (buildTypedEnvelope 2 ''a'' Counter, ''a''),
                  (buildTypedEnvelope 3 ''a'' Gauge, ''a''), (buildTypedEnvelope 4 ''a'' Timer, ''a''),
                  (buildTypedEnvelope 5 ''a'' Event, ''a'')] (NewStore 5 10))"

definition store_a1 :: Store where
  "store_a1 = projr (Put (buildEnvelope 1 ''a'') ''a'' (NewStore 5 10))"

text \<open>
  \<open>Put\<close> takes the index apart from the envelope: a store in which an envelope of the
  source "x" was put under the index "a".
\<close>

definition store_x_under_a :: Store where
  "store_x_under_a = projr (Put (buildEnvelope 1 ''x'') ''a'' (NewStore 5 10))"

text \<open>
  The Puts of the test "increments the timestamp as necessary to prevent overwrites":
  the timestamps 1, 1, 3 and 4 for "a", each envelope put under its own source id.
\<close>

definition collision_puts :: "(Envelope \<times> string) list" where
  "collision_puts =
     [(buildEnvelope 1 ''a'', ''a''), (buildEnvelope 1 ''a'', ''a''),
      (buildEnvelope 3 ''a'', ''a''), (buildEnvelope 4 ''a'', ''a'')]"

section \<open>Stores filled by source id\<close>

text \<open>
  The callers of the store put every envelope under its own source id
  (\<open>s.Put(e, e.GetSourceId())\<close>). \<open>filed_by_source_id\<close> holds of the states that such
  callers reach; \<open>source_keyed\<close> says of a state that every wrapper in a tree has the
  source id of its envelope as its index.
\<close>

inductive filed_by_source_id :: "Store \<Rightarrow> bool" where
  filed_NewStore: "filed_by_source_id (NewStore sz mps)"
| filed_Put: "filed_by_source_id s \<Longrightarrow> Put e (SourceId e) s = Inr s' \<Longrightarrow> filed_by_source_id s'"
| filed_Get:
    "filed_by_source_id s \<Longrightarrow> Get index start end' envelopeType limit s = Inr (res, s') \<Longrightarrow>
     filed_by_source_id s'"

definition source_keyed :: "Store \<Rightarrow> bool" where
  "source_keyed s \<longleftrightarrow>
     (\<forall>a k w. (k, w) \<in> set (entries (trees s a)) \<longrightarrow> SourceId (e_of w) = index_of w)"

section \<open>What holds of a running batched ingress client\<close>

text \<open>
  The batch of the batcher holds envelopes only; every request sent so far carries
  \<open>LocalOnly\<close> and went out under the three-second context; and the failures in the log
  are the errors the peer answered, in order.
\<close>

definition flusher_inv :: "IngressClient \<Rightarrow> BatchedIngressClient \<Rightarrow> bool" where
  "flusher_inv c b \<longleftrightarrow>
     OtherItem \<notin> set (pending b) \<and>
     (\<forall>x \<in> set (rpcs b). fst x = WithTimeout Background (3 * Second) \<and> LocalOnly (snd x)) \<and>
     filter is_failure (logged b) = failures c 0 (rpcs b)"

text \<open>Two states of the client that differ in the log at most.\<close>

definition apart_from_log :: "BatchedIngressClient \<Rightarrow> BatchedIngressClient \<Rightarrow> bool" where
  "apart_from_log b b' \<longleftrightarrow>
     ring b = ring b' \<and> pending b = pending b' \<and> droppedMetric b = droppedMetric b' \<and>
     rpcs b = rpcs b'"

text \<open>
  The envelopes the flusher has taken from the ring: those it has sent, batch after
  batch, and those the batcher still holds.
\<close>

fun item_envelopes :: "item list \<Rightarrow> Envelope list" where
  "item_envelopes [] = []"
| "item_envelopes (EnvelopeItem e # xs) = e # item_envelopes xs"
| "item_envelopes (OtherItem # xs) = item_envelopes xs"

definition taken :: "BatchedIngressClient \<Rightarrow> Envelope list" where
  "taken b = concat (map (\<lambda>x. Envelopes (snd x)) (rpcs b)) @ item_envelopes (pending b)"


section \<open>A run of the client used as an example\<close>

text \<open>
  A peer that fails on the first call only; a caller that sends three envelopes; four
  turns of the flusher, the interval having lapsed at the last.
\<close>

definition fails_first :: IngressClient where
  "fails_first n ctx req = (if n = 0 then Some ''unavailable'' else None)"

definition three_envelopes :: SendRequest where
  "three_envelopes =
     \<lparr>LocalOnly = False,
      Envelopes = [buildEnvelope 1 ''a'', buildEnvelope 2 ''a'', buildEnvelope 3 ''a'']\<rparr>"

definition example_run :: "event list" where
  "example_run = [Caller three_envelopes, Flusher False, Flusher False, Flusher False, Flusher True]"

section \<open>Properties of the ordered tree\<close>

lemma entries_Put:
  "bst t \<Longrightarrow> set (entries (tree_Put k v t)) = insert (k, v) {x \<in> set (entries t). fst x \<noteq> k}"
  by (induction t) (auto simp: list_all_iff)

lemma bst_Put: "bst t \<Longrightarrow> bst (tree_Put k v t)"
  by (induction t) (auto simp: list_all_iff entries_Put)

lemma Get_entries: "bst t \<Longrightarrow> tree_Get k t = Some v \<longleftrightarrow> (k, v) \<in> set (entries t)"
  by (induction t) (auto simp: list_all_iff)

lemma removeMin_entries:
  "removeMin k v c0 c1 = (m, t') \<Longrightarrow> entries (Node k v c0 c1) = m # entries t'"
  by (induction k v c0 c1 arbitrary: m t' rule: removeMin.induct) (auto split: prod.splits)

lemma removeMin_set:
  "removeMin k v c0 c1 = (m, t') \<Longrightarrow>
     insert m (set (entries t')) = set (entries c0) \<union> insert (k, v) (set (entries c1))"
proof -
  assume "removeMin k v c0 c1 = (m, t')"
  then have "set (entries (Node k v c0 c1)) = set (m # entries t')"
    by (simp only: removeMin_entries)
  then show ?thesis
    by auto
qed

lemma removeMin_bst:
  "removeMin k v c0 c1 = (m, t') \<Longrightarrow> bst (Node k v c0 c1) \<Longrightarrow>
     bst t' \<and> list_all (\<lambda>x. fst m < fst x) (entries t')"
proof (induction k v c0 c1 arbitrary: m t' rule: removeMin.induct)
  case (1 k v c1)
  then show ?case by (auto simp: list_all_iff)
next
  case (2 k v k' v' c0' c1' c1)
  from "2.prems"(1) obtain c0 where
    rm: "removeMin k' v' c0' c1' = (m, c0)" and t': "t' = Node k v c0 c1"
    by (auto split: prod.splits)
  from "2.prems"(2) have inner: "bst (Node k' v' c0' c1')"
    by simp
  from "2.IH"[OF rm inner] have ih: "bst c0" "list_all (\<lambda>x. fst m < fst x) (entries c0)"
    by simp_all
  note ent = removeMin_set[OF rm]
  from "2.prems"(2) have below: "\<forall>x \<in> set (entries c0') \<union> insert (k', v') (set (entries c1')). fst x < k"
    and above: "list_all (\<lambda>x. k < fst x) (entries c1)" and c1: "bst c1"
    by (auto simp: list_all_iff)
  from below ent have mk: "fst m < k" and c0k: "list_all (\<lambda>x. fst x < k) (entries c0)"
    unfolding list_all_iff by blast+
  from above mk have "list_all (\<lambda>x. fst m < fst x) (entries c1)"
    by (auto simp: list_all_iff)
  with ih c0k mk above c1 t' show ?case
    by simp
qed

lemma entries_Remove:
  "bst t \<Longrightarrow> set (entries (tree_Remove k t)) = {x \<in> set (entries t). fst x \<noteq> k}"
proof (induction t)
  case NilNode
  then show ?case by simp
next
  case (Node k' v c0 c1)
  show ?case
  proof (cases "k = k'")
    case False
    with Node show ?thesis by (auto simp: list_all_iff)
  next
    case True
    show ?thesis
    proof (cases c1)
      case NilNode
      with True Node.prems show ?thesis by (auto simp: list_all_iff)
    next
      case (Node k1 v1 c10 c11)
      obtain m c1' where rm: "removeMin k1 v1 c10 c11 = (m, c1')"
        by (cases "removeMin k1 v1 c10 c11")
      from removeMin_set[OF rm] Node
      have ent: "set (entries c1) = insert m (set (entries c1'))"
        by simp
      from Node.prems have "\<forall>x \<in> set (entries c1). k' < fst x" "\<forall>x \<in> set (entries c0). fst x < k'"
        by (auto simp: list_all_iff)
      with ent have "{x \<in> set (entries (Node k' v c0 c1)). fst x \<noteq> k'} = set (entries c0) \<union> insert m (set (entries c1'))"
        by auto
      moreover have "set (entries (tree_Remove k (Node k' v c0 c1))) = set (entries c0) \<union> insert m (set (entries c1'))"
        using True Node rm by (cases m) auto
      ultimately show ?thesis using True
        by simp
    qed
  qed
qed

lemma bst_Remove: "bst t \<Longrightarrow> bst (tree_Remove k t)"
proof (induction t)
  case NilNode
  then show ?case by simp
next
  case (Node k' v c0 c1)
  show ?case
  proof (cases "k = k'")
    case False
    with Node show ?thesis by (auto simp: list_all_iff entries_Remove)
  next
    case True
    show ?thesis
    proof (cases c1)
      case NilNode
      with True Node.prems show ?thesis by simp
    next
      case (Node k1 v1 c10 c11)
      obtain m c1' where rm: "removeMin k1 v1 c10 c11 = (m, c1')"
        by (cases "removeMin k1 v1 c10 c11")
      from Node.prems Node have b1: "bst (Node k1 v1 c10 c11)"
        by simp
      from removeMin_set[OF rm] Node
      have ent: "set (entries c1) = insert m (set (entries c1'))"
        by simp
      from removeMin_bst[OF rm b1] have "bst c1'" "list_all (\<lambda>x. fst m < fst x) (entries c1')"
        by simp_all
      moreover from Node.prems have "\<forall>x \<in> set (entries c1). k' < fst x"
        "list_all (\<lambda>x. fst x < k') (entries c0)" "bst c0"
        by (auto simp: list_all_iff)
      moreover from this(1) ent have "k' < fst m"
        by simp
      ultimately show ?thesis using True Node rm
        by (cases m) (auto simp: list_all_iff)
    qed
  qed
qed

lemma bst_sorted: "bst t \<Longrightarrow> sorted_wrt (<) (map fst (entries t))"
  by (induction t) (fastforce simp: list_all_iff sorted_wrt_append)+

lemma Size_entries: "tree_Size t = length (entries t)"
  by (induction t) auto

lemma Left_hd: "t \<noteq> NilNode \<Longrightarrow> tree_Left t = Some (hd (entries t))"
  by (induction t rule: tree_Left.induct) (auto simp: hd_append)

lemma Left_None: "tree_Left t = None \<longleftrightarrow> t = NilNode"
  by (induction t rule: tree_Left.induct) auto

lemma entries_Nil: "entries t = [] \<longleftrightarrow> t = NilNode"
  by (cases t) auto

lemma Get_Put: "bst t \<Longrightarrow> tree_Get k' (tree_Put k v t) = (if k' = k then Some v else tree_Get k' t)"
  by (induction t) (auto simp: list_all_iff)

lemma Get_None_entries: "bst t \<Longrightarrow> tree_Get k t = None \<longleftrightarrow> k \<notin> fst ` set (entries t)"
  using Get_entries[of t k] by (cases "tree_Get k t") force+

lemma Get_Remove:
  assumes "bst t"
  shows "tree_Get k' (tree_Remove k t) = (if k' = k then None else tree_Get k' t)"
proof (cases "tree_Get k' (tree_Remove k t)")
  case None
  with assms show ?thesis
    using Get_None_entries[OF bst_Remove[OF assms], of k' k] Get_None_entries[OF assms, of k']
    by (auto simp: entries_Remove image_iff)
next
  case (Some v)
  with assms show ?thesis
    using Get_entries[OF bst_Remove[OF assms], of k' k v] Get_entries[OF assms, of k' v]
    by (auto simp: entries_Remove)
qed

lemma Left_Get:
  assumes "bst t" "tree_Left t = Some (k, v)"
  shows "tree_Get k t = Some v" and "tree_Get k' t = Some v' \<Longrightarrow> k \<le> k'"
proof -
  from assms(2) have ne: "t \<noteq> NilNode"
    by auto
  with assms(2) have hd: "hd (entries t) = (k, v)"
    by (simp add: Left_hd)
  from ne have nonempty: "entries t \<noteq> []"
    by (simp add: entries_Nil)
  then obtain xs where ent: "entries t = (k, v) # xs"
    using hd by (cases "entries t") auto
  then show "tree_Get k t = Some v"
    using Get_entries[OF assms(1), of k v] by simp
  assume "tree_Get k' t = Some v'"
  then have "(k', v') \<in> set (entries t)"
    using Get_entries[OF assms(1)] by simp
  moreover from bst_sorted[OF assms(1)] ent have "\<forall>x \<in> set xs. k < fst x"
    by simp
  ultimately show "k \<le> k'"
    using ent by auto
qed

lemma dom_Get: "bst t \<Longrightarrow> dom (\<lambda>k. tree_Get k t) = fst ` set (entries t)"
  using Get_None_entries[of t] by (auto simp: dom_def)

lemma Size_card: "bst t \<Longrightarrow> tree_Size t = card (dom (\<lambda>k. tree_Get k t))"
proof -
  assume b: "bst t"
  from bst_sorted[OF b] have "distinct (map fst (entries t))"
    by (simp add: strict_sorted_iff)
  then have "card (set (map fst (entries t))) = length (entries t)"
    using distinct_card by fastforce
  with b show ?thesis
    by (simp add: dom_Get Size_entries)
qed

lemma Size_0: "tree_Size t = 0 \<longleftrightarrow> t = NilNode"
  by (cases t) auto

lemma finite_dom_Get: "finite (dom (\<lambda>k. tree_Get k t))"
proof -
  have "dom (\<lambda>k. tree_Get k t) \<subseteq> fst ` set (entries t)"
    by (induction t) (auto simp: dom_def split: if_splits)
  then show ?thesis
    by (rule finite_subset) simp
qed

lemma Size_Put:
  assumes "bst t"
  shows "tree_Size (tree_Put k v t) = (if tree_Get k t = None then Suc (tree_Size t) else tree_Size t)"
proof -
  have "dom (\<lambda>k'. tree_Get k' (tree_Put k v t)) = insert k (dom (\<lambda>k'. tree_Get k' t))"
    using assms by (auto simp: Get_Put dom_def)
  then show ?thesis
    using assms finite_dom_Get[of t]
    by (auto simp: Size_card bst_Put card_insert_if insert_absorb dom_def)
qed

lemma Size_Remove:
  assumes "bst t"
  shows "tree_Size (tree_Remove k t) = (if tree_Get k t = None then tree_Size t else tree_Size t - 1)"
proof -
  have "dom (\<lambda>k'. tree_Get k' (tree_Remove k t)) = dom (\<lambda>k'. tree_Get k' t) - {k}"
    using assms by (auto simp: Get_Remove dom_def)
  then show ?thesis
    using assms finite_dom_Get[of t]
    by (auto simp: Size_card bst_Remove dom_def)
qed

lemma Put_not_Nil: "tree_Put k v t \<noteq> NilNode"
  by (cases t) auto

section \<open>Properties of treeStorage\<close>

lemma registered_Put:
  "bst st \<Longrightarrow> registered (treeStorage_Put k a st) = (registered st)(k := registered st k @ [a])"
  by (auto simp: registered_def treeStorage_Put_def Get_Put fun_eq_iff)

lemma ovt_ok_Put: "ovt_ok st \<Longrightarrow> ovt_ok (treeStorage_Put k a st)"
  by (auto simp: ovt_ok_def treeStorage_Put_def Get_Put bst_Put)

lemma registered_Remove:
  "bst st \<Longrightarrow>
   registered (treeStorage_Remove k a st) = (registered st)(k := remove1 a (registered st k))"
  by (auto simp: registered_def treeStorage_Remove_def Get_Put Get_Remove fun_eq_iff Let_def)

lemma ovt_ok_Remove: "ovt_ok st \<Longrightarrow> ovt_ok (treeStorage_Remove k a st)"
  by (auto simp: ovt_ok_def treeStorage_Remove_def Get_Put Get_Remove bst_Put bst_Remove Let_def)

lemma treeStorage_Left_Inr:
  assumes "ovt_ok st" "treeStorage_Left st = Inr (k, a)"
  shows "registered st k \<noteq> []" "a = hd (registered st k)"
    and "registered st k' \<noteq> [] \<Longrightarrow> k \<le> k'"
proof -
  from assms(2) obtain vs where l: "tree_Left st = Some (k, vs)" and vs: "vs \<noteq> []" "a = hd vs"
    by (auto simp: treeStorage_Left_def split: option.splits list.splits)
  from assms(1) have b: "bst st"
    by (simp add: ovt_ok_def)
  from Left_Get(1)[OF b l] have r: "registered st k = vs"
    by (simp add: registered_def)
  with vs show "registered st k \<noteq> []" "a = hd (registered st k)"
    by simp_all
  assume "registered st k' \<noteq> []"
  then obtain vs' where "tree_Get k' st = Some vs'"
    by (auto simp: registered_def split: option.splits)
  from Left_Get(2)[OF b l this] show "k \<le> k'" .
qed

lemma treeStorage_Left_total:
  assumes "ovt_ok st" "registered st k \<noteq> []"
  shows "\<exists>k0 a. treeStorage_Left st = Inr (k0, a)"
proof -
  from assms(2) have "st \<noteq> NilNode"
    by (auto simp: registered_def)
  then obtain k0 vs where l: "tree_Left st = Some (k0, vs)"
    using Left_None[of st] by (cases "tree_Left st") auto
  from assms(1) Left_Get(1)[OF _ l] have "vs \<noteq> []"
    by (auto simp: ovt_ok_def)
  with l show ?thesis
    by (auto simp: treeStorage_Left_def split: list.splits)
qed

section \<open>Registration of the indexes in oldestValueTree\<close>

lemma ovt_ok_bst: "ovt_ok st \<Longrightarrow> bst st"
  by (simp add: ovt_ok_def)

lemma reg_inv_new:
  assumes "reg_inv ix tr st" "a \<notin> ran ix" "ix src = None" "min_key t' = Some k"
  shows "reg_inv (ix(src \<mapsto> a)) (tr(a := t')) (treeStorage_Put k a st)"
proof -
  from assms(1) have ok: "ovt_ok st" and d: "\<And>k. distinct (registered st k)"
    and m: "\<And>k t. t \<in> set (registered st k) \<longleftrightarrow> t \<in> ran ix \<and> min_key (tr t) = Some k"
    by (simp_all add: reg_inv_def)
  have r: "registered (treeStorage_Put k a st) = (registered st)(k := registered st k @ [a])"
    using ok by (simp add: registered_Put ovt_ok_bst)
  have ran: "ran (ix(src \<mapsto> a)) = insert a (ran ix)"
    using assms(3) by simp
  have na: "\<And>k'. a \<notin> set (registered st k')"
    using m assms(2) by simp
  show ?thesis
    unfolding reg_inv_def r ran
  proof (intro conjI allI)
    show "ovt_ok (treeStorage_Put k a st)"
      using ok by (simp add: ovt_ok_Put)
    fix k'
    show "distinct (((registered st)(k := registered st k @ [a])) k')"
      using d na by auto
    fix t
    show "t \<in> set (((registered st)(k := registered st k @ [a])) k') \<longleftrightarrow>
          t \<in> insert a (ran ix) \<and> min_key ((tr(a := t')) t) = Some k'"
    proof (cases "t = a")
      case True
      then show ?thesis
        using na[of k'] assms(4) by auto
    next
      case False
      then show ?thesis
        using m[of t k'] by auto
    qed
  qed
qed

lemma reg_inv_move:
  assumes "reg_inv ix tr st" "a \<in> ran ix" "min_key (tr a) = Some k0" "min_key t' = Some k1"
  shows "reg_inv ix (tr(a := t')) (treeStorage_Put k1 a (treeStorage_Remove k0 a st))"
proof -
  from assms(1) have ok: "ovt_ok st" and d: "\<And>k. distinct (registered st k)"
    and m: "\<And>k t. t \<in> set (registered st k) \<longleftrightarrow> t \<in> ran ix \<and> min_key (tr t) = Some k"
    by (simp_all add: reg_inv_def)
  define r1 where "r1 = (registered st)(k0 := remove1 a (registered st k0))"
  have r: "registered (treeStorage_Put k1 a (treeStorage_Remove k0 a st)) = r1(k1 := r1 k1 @ [a])"
    using ok by (simp add: registered_Put registered_Remove ovt_ok_bst ovt_ok_Remove r1_def)
  have a_only: "\<And>k'. a \<in> set (registered st k') \<longleftrightarrow> k' = k0"
    using m assms(2,3) by auto
  have na: "\<And>k'. a \<notin> set (r1 k')"
    using a_only d by (auto simp: r1_def)
  have others: "\<And>k' t. t \<noteq> a \<Longrightarrow> t \<in> set (r1 k') \<longleftrightarrow> t \<in> set (registered st k')"
    by (auto simp: r1_def)
  have d1: "\<And>k'. distinct (r1 k')"
    using d by (auto simp: r1_def)
  show ?thesis
    unfolding reg_inv_def r
  proof (intro conjI allI)
    show "ovt_ok (treeStorage_Put k1 a (treeStorage_Remove k0 a st))"
      using ok by (simp add: ovt_ok_Put ovt_ok_Remove)
    fix k
    show "distinct ((r1(k1 := r1 k1 @ [a])) k)"
      using d1 na by auto
    fix t
    show "t \<in> set ((r1(k1 := r1 k1 @ [a])) k) \<longleftrightarrow>
          t \<in> ran ix \<and> min_key ((tr(a := t')) t) = Some k"
    proof (cases "t = a")
      case True
      then show ?thesis
        using na[of k] assms(2,4) by auto
    next
      case False
      then show ?thesis
        using others[OF False, of k] m[of t k] by auto
    qed
  qed
qed

lemma reg_inv_same:
  assumes "reg_inv ix tr st" "min_key t' = min_key (tr a)"
  shows "reg_inv ix (tr(a := t')) st"
proof -
  from assms(1) have ok: "ovt_ok st" and d: "\<And>k. distinct (registered st k)"
    and m: "\<And>k t. t \<in> set (registered st k) \<longleftrightarrow> t \<in> ran ix \<and> min_key (tr t) = Some k"
    by (simp_all add: reg_inv_def)
  have "\<And>t. min_key ((tr(a := t')) t) = min_key (tr t)"
    using assms(2) by simp
  then show ?thesis
    unfolding reg_inv_def using ok d m by simp
qed

lemma ran_drop_inj:
  assumes "inj_on ix (dom ix)" "ix src = Some a"
  shows "ran (ix(src := None)) = ran ix - {a}"
proof (rule set_eqI)
  fix b
  have only: "ix x = Some a \<Longrightarrow> x = src" for x
    using assms by (metis domI inj_onD)
  show "b \<in> ran (ix(src := None)) \<longleftrightarrow> b \<in> ran ix - {a}"
  proof
    assume "b \<in> ran (ix(src := None))"
    then obtain x where x: "(ix(src := None)) x = Some b"
      unfolding ran_def by blast
    then have xs: "x \<noteq> src" and ixx: "ix x = Some b"
      by (auto split: if_splits)
    from ixx have "b \<in> ran ix"
      by (rule ranI)
    moreover from xs ixx only have "b \<noteq> a"
      by blast
    ultimately show "b \<in> ran ix - {a}"
      by simp
  next
    assume "b \<in> ran ix - {a}"
    then obtain x where ixx: "ix x = Some b" and ba: "b \<noteq> a"
      unfolding ran_def by blast
    with assms(2) have "x \<noteq> src"
      by auto
    with ixx have "(ix(src := None)) x = Some b"
      by simp
    then show "b \<in> ran (ix(src := None))"
      by (rule ranI)
  qed
qed

lemma reg_inv_drop:
  assumes "reg_inv ix tr st" "ix src = Some a" "inj_on ix (dom ix)" "min_key (tr a) = Some k0"
  shows "reg_inv (ix(src := None)) (tr(a := t')) (treeStorage_Remove k0 a st)"
proof -
  from assms(1) have ok: "ovt_ok st" and d: "\<And>k. distinct (registered st k)"
    and m: "\<And>k t. t \<in> set (registered st k) \<longleftrightarrow> t \<in> ran ix \<and> min_key (tr t) = Some k"
    by (simp_all add: reg_inv_def)
  define r1 where "r1 = (registered st)(k0 := remove1 a (registered st k0))"
  have r: "registered (treeStorage_Remove k0 a st) = r1"
    using ok by (simp add: registered_Remove ovt_ok_bst r1_def)
  have ain: "a \<in> ran ix"
    using assms(2) by (auto simp: ran_def)
  have a_only: "\<And>k'. a \<in> set (registered st k') \<longleftrightarrow> k' = k0"
    using m ain assms(4) by auto
  have na: "\<And>k'. a \<notin> set (r1 k')"
    using a_only d by (auto simp: r1_def)
  have others: "\<And>k' t. t \<noteq> a \<Longrightarrow> t \<in> set (r1 k') \<longleftrightarrow> t \<in> set (registered st k')"
    by (auto simp: r1_def)
  have d1: "\<And>k'. distinct (r1 k')"
    using d by (auto simp: r1_def)
  show ?thesis
    unfolding reg_inv_def r ran_drop_inj[OF assms(3,2)]
  proof (intro conjI allI)
    show "ovt_ok (treeStorage_Remove k0 a st)"
      using ok by (simp add: ovt_ok_Remove)
    fix k
    show "distinct (r1 k)"
      by (rule d1)
    fix t
    show "t \<in> set (r1 k) \<longleftrightarrow> t \<in> ran ix - {a} \<and> min_key ((tr(a := t')) t) = Some k"
    proof (cases "t = a")
      case True
      then show ?thesis
        using na[of k] by auto
    next
      case False
      then show ?thesis
        using others[OF False, of k] m[of t k] by auto
    qed
  qed
qed

section \<open>Sizes, and what Put and truncate do to the state\<close>


lemma inj_other:
  assumes "inj_on ix (dom ix)" "ix src = Some a" "x \<in> dom ix" "x \<noteq> src"
  shows "the (ix x) \<noteq> a"
proof
  assume "the (ix x) = a"
  with assms(3) have "ix x = Some a"
    by auto
  with assms(1,2,3) have "x = src"
    by (metis domI inj_onD)
  with assms(4) show False
    by simp
qed

lemma tsize_upd:
  assumes "finite (dom ix)" "inj_on ix (dom ix)" "ix src = Some a"
  shows "tsize ix (tr(a := t')) = tsize ix tr - int (tree_Size (tr a)) + int (tree_Size t')"
proof -
  let ?g = "\<lambda>tr x. int (tree_Size (tr (the (ix x))))"
  from assms(3) have src: "src \<in> dom ix"
    by auto
  have rest: "sum (?g (tr(a := t'))) (dom ix - {src}) = sum (?g tr) (dom ix - {src})"
    by (rule sum.cong) (use inj_other[OF assms(2,3)] in auto)
  have "sum (?g (tr(a := t'))) (dom ix) = ?g (tr(a := t')) src + sum (?g (tr(a := t'))) (dom ix - {src})"
    by (rule sum.remove[OF assms(1) src])
  moreover have "sum (?g tr) (dom ix) = ?g tr src + sum (?g tr) (dom ix - {src})"
    by (rule sum.remove[OF assms(1) src])
  ultimately show ?thesis
    using rest assms(3) by (simp add: tsize_def)
qed

lemma tsize_new:
  assumes "finite (dom ix)" "ix src = None" "a \<notin> ran ix"
  shows "tsize (ix(src \<mapsto> a)) (tr(a := t')) = tsize ix tr + int (tree_Size t')"
proof -
  from assms(2) have nsrc: "src \<notin> dom ix"
    by auto
  have other: "x \<in> dom ix \<Longrightarrow> the (ix x) \<noteq> a" for x
    using assms(3) by (auto simp: ran_def)
  have "sum (\<lambda>x. int (tree_Size ((tr(a := t')) (the ((ix(src \<mapsto> a)) x))))) (dom ix)
        = sum (\<lambda>x. int (tree_Size (tr (the (ix x))))) (dom ix)"
    by (rule sum.cong) (use other nsrc in auto)
  then show ?thesis
    using assms(1) nsrc by (simp add: tsize_def)
qed

lemma tsize_drop:
  assumes "finite (dom ix)" "inj_on ix (dom ix)" "ix src = Some a"
  shows "tsize (ix(src := None)) (tr(a := t')) = tsize ix tr - int (tree_Size (tr a))"
proof -
  from assms(3) have src: "src \<in> dom ix"
    by auto
  have "sum (\<lambda>x. int (tree_Size ((tr(a := t')) (the ((ix(src := None)) x))))) (dom ix - {src})
        = sum (\<lambda>x. int (tree_Size (tr (the (ix x))))) (dom ix - {src})"
    by (rule sum.cong) (use inj_other[OF assms(2,3)] in auto)
  moreover have "sum (\<lambda>x. int (tree_Size (tr (the (ix x))))) (dom ix)
        = int (tree_Size (tr (the (ix src)))) + sum (\<lambda>x. int (tree_Size (tr (the (ix x))))) (dom ix - {src})"
    by (rule sum.remove[OF assms(1) src])
  ultimately show ?thesis
    using assms(3) by (simp add: tsize_def)
qed

lemma Put_insert_new:
  assumes "indexes s idx = None"
  shows "Put_insert e idx s =
    Inr (s\<lparr>ingress := ingress s + 1,
           trees := (trees s)(next_addr s := Node (Timestamp e) (EnvelopeWrapper e idx) NilNode NilNode),
           next_addr := Suc (next_addr s),
           indexes := (indexes s)(idx \<mapsto> next_addr s),
           oldestValueTree := treeStorage_Put (Timestamp e) (next_addr s) (oldestValueTree s),
           expired := (if maxPerSource s \<le> 0 then expired s + 1 else expired s),
           count := count s + 1\<rparr>)"
  using assms by (simp add: Put_insert_def)

lemma Put_insert_existing:
  assumes "indexes s idx = Some a" "tree_Left (trees s a) = Some (k0, w0)"
    and "tr1 = (if maxPerSource s \<le> int (tree_Size (trees s a))
                then tree_Remove k0 (trees s a) else trees s a)"
    and "tr2 = tree_Put (Timestamp e) (EnvelopeWrapper e idx) tr1"
    and "tree_Left tr2 = Some (k1, w1)"
  shows "Put_insert e idx s =
    Inr (s\<lparr>ingress := ingress s + 1,
           trees := (trees s)(a := tr2),
           expired := (if maxPerSource s \<le> int (tree_Size (trees s a))
                       then expired s + 1 else expired s),
           count := count s + (int (tree_Size tr2) - int (tree_Size (trees s a))),
           oldestValueTree :=
             (if k0 \<noteq> k1
              then treeStorage_Put k1 a (treeStorage_Remove k0 a (oldestValueTree s))
              else oldestValueTree s)\<rparr>)"
  using assms
  by (cases "maxPerSource s \<le> int (tree_Size (trees s a))") (simp_all add: Put_insert_def Let_def)

lemma truncate_skip: "count s \<le> size' s \<Longrightarrow> truncate s = Inr s"
  by (simp add: truncate_def)

lemma truncate_step:
  assumes "\<not> count s \<le> size' s" "treeStorage_Left (oldestValueTree s) = Inr (k, a)"
    and "tree_Left (trees s a) = Some (lk, lw)" and "t' = tree_Remove k (trees s a)"
  shows "truncate s =
    (if tree_Size t' = 0
     then Inr (s\<lparr>count := count s - 1, expired := expired s + 1,
                 oldestValueTree := treeStorage_Remove k a (oldestValueTree s),
                 trees := (trees s)(a := t'),
                 indexes := (indexes s)(index_of lw := None)\<rparr>)
     else (case tree_Left t' of
             None \<Rightarrow> Inl NilDereference
           | Some (nk, nw) \<Rightarrow>
               Inr (s\<lparr>count := count s - 1, expired := expired s + 1,
                      trees := (trees s)(a := t'),
                      oldestValueTree :=
                        treeStorage_Put nk a (treeStorage_Remove k a (oldestValueTree s))\<rparr>)))"
  using assms by (simp add: truncate_def split: option.splits)

section \<open>Put and truncate keep the invariant\<close>


lemma index_ok_Left: "index_ok src t \<Longrightarrow> \<exists>k w. tree_Left t = Some (k, w)"
  using Left_None[of t] by (cases "tree_Left t") (auto simp: index_ok_def)

lemma index_ok_Put:
  assumes "bst t"
    and "\<And>k w. tree_Get k t = Some w \<Longrightarrow> index_of w = src \<and> Timestamp (e_of w) = k"
  shows "index_ok src (tree_Put (Timestamp e) (EnvelopeWrapper e src) t)"
  unfolding index_ok_def
proof (intro conjI allI impI)
  show "bst (tree_Put (Timestamp e) (EnvelopeWrapper e src) t)"
    using assms(1) by (rule bst_Put)
  show "tree_Put (Timestamp e) (EnvelopeWrapper e src) t \<noteq> NilNode"
    by (rule Put_not_Nil)
next
  fix k w
  assume "tree_Get k (tree_Put (Timestamp e) (EnvelopeWrapper e src) t) = Some w"
  then have "(k = Timestamp e \<and> w = EnvelopeWrapper e src) \<or> tree_Get k t = Some w"
    using assms(1) by (auto simp: Get_Put split: if_splits)
  then show "index_of w = src" "Timestamp (e_of w) = k"
    using assms(2) by auto
qed

lemma inj_on_new:
  assumes "inj_on ix (dom ix)" "a \<notin> ran ix"
  shows "inj_on (ix(idx \<mapsto> a)) (dom (ix(idx \<mapsto> a)))"
proof (rule inj_onI)
  fix x y
  assume x: "x \<in> dom (ix(idx \<mapsto> a))" and y: "y \<in> dom (ix(idx \<mapsto> a))"
    and eq: "(ix(idx \<mapsto> a)) x = (ix(idx \<mapsto> a)) y"
  have na: "ix z \<noteq> Some a" for z
    using assms(2) by (auto simp: ran_def)
  show "x = y"
  proof (cases "x = idx")
    case True
    with eq na[of y] show ?thesis
      by (auto split: if_splits)
  next
    case False
    show ?thesis
    proof (cases "y = idx")
      case True
      with eq na[of x] False show ?thesis
        by (auto split: if_splits)
    next
      case yf: False
      with False x y eq have "x \<in> dom ix" "y \<in> dom ix" "ix x = ix y"
        by auto
      with assms(1) show ?thesis
        by (rule_tac inj_onD)
    qed
  qed
qed

lemma inj_on_drop:
  assumes "inj_on ix (dom ix)"
  shows "inj_on (ix(src := None)) (dom (ix(src := None)))"
proof (rule inj_onI)
  fix x y
  assume "x \<in> dom (ix(src := None))" "y \<in> dom (ix(src := None))"
    and "(ix(src := None)) x = (ix(src := None)) y"
  then have "x \<in> dom ix" "y \<in> dom ix" "ix x = ix y"
    by (auto split: if_splits)
  with assms show "x = y"
    by (rule_tac inj_onD)
qed

lemma min_key_Some: "tree_Left t = Some (k, w) \<Longrightarrow> min_key t = Some k"
  by (simp add: min_key_def)

lemma store_inv_Put_insert_new:
  assumes inv: "store_inv s" and new: "indexes s idx = None"
  shows "\<exists>s'. Put_insert e idx s = Inr s' \<and> store_inv s' \<and> indexes s' idx \<noteq> None"
proof -
  define a where "a = next_addr s"
  define t' where "t' = Node (Timestamp e) (EnvelopeWrapper e idx) NilNode NilNode"
  define s' where "s' = s\<lparr>ingress := ingress s + 1,
           trees := (trees s)(a := t'),
           next_addr := Suc a,
           indexes := (indexes s)(idx \<mapsto> a),
           oldestValueTree := treeStorage_Put (Timestamp e) a (oldestValueTree s),
           expired := (if maxPerSource s \<le> 0 then expired s + 1 else expired s),
           count := count s + 1\<rparr>"
  have eff: "Put_insert e idx s = Inr s'"
    unfolding s'_def a_def t'_def using new by (rule Put_insert_new)
  from inv have fin: "finite (dom (indexes s))" and inj: "inj_on (indexes s) (dom (indexes s))"
    and each: "\<And>src t. indexes s src = Some t \<Longrightarrow> t < next_addr s \<and> index_ok src (trees s t)"
    and reg: "reg_inv (indexes s) (trees s) (oldestValueTree s)"
    and cnt: "count s = tsize (indexes s) (trees s)"
    by (simp_all add: store_inv_def idx_inv_def total_size_def)
  have fresh: "a \<notin> ran (indexes s)"
    using each by (auto simp: ran_def a_def)
  have mk: "min_key t' = Some (Timestamp e)"
    by (simp add: t'_def min_key_def)
  have ok': "index_ok idx t'"
    by (auto simp: index_ok_def t'_def list_all_iff split: if_splits)
  have "idx_inv s'"
    unfolding idx_inv_def
  proof (intro conjI allI impI)
    show "finite (dom (indexes s'))"
      using fin by (simp add: s'_def)
    show "inj_on (indexes s') (dom (indexes s'))"
      using inj_on_new[OF inj fresh, of idx] by (simp add: s'_def)
  next
    fix src t
    assume "indexes s' src = Some t"
    then have c: "(src = idx \<and> t = a) \<or> (src \<noteq> idx \<and> indexes s src = Some t)"
      by (auto simp: s'_def split: if_splits)
    then show "t < next_addr s'"
      using each by (auto simp: s'_def a_def less_Suc_eq)
    from c show "index_ok src (trees s' t)"
    proof
      assume "src = idx \<and> t = a"
      then show ?thesis
        using ok' by (simp add: s'_def)
    next
      assume o: "src \<noteq> idx \<and> indexes s src = Some t"
      with each[of src t] have "t \<noteq> a" "index_ok src (trees s t)"
        by (auto simp: a_def)
      then show ?thesis
        by (simp add: s'_def)
    qed
  qed
  moreover have "reg_inv (indexes s') (trees s') (oldestValueTree s')"
    using reg_inv_new[OF reg fresh new mk] by (simp add: s'_def)
  moreover have "count s' = total_size s'"
    using tsize_new[OF fin new fresh, of "trees s" t'] cnt
    by (simp add: s'_def total_size_def t'_def)
  ultimately have "store_inv s'"
    by (simp add: store_inv_def)
  moreover have "indexes s' idx \<noteq> None"
    by (simp add: s'_def)
  ultimately show ?thesis
    using eff by blast
qed

lemma inj_same:
  assumes "inj_on ix (dom ix)" "ix x = Some a" "ix y = Some a"
  shows "x = y"
  using assms by (metis domI inj_onD)

lemma idx_inv_upd:
  assumes "idx_inv s" "indexes s idx = Some a" "index_ok idx t'"
    and "indexes s' = indexes s" "trees s' = (trees s)(a := t')" "next_addr s' = next_addr s"
  shows "idx_inv s'"
  unfolding idx_inv_def
proof (intro conjI allI impI)
  from assms(1) have fin: "finite (dom (indexes s))" and inj: "inj_on (indexes s) (dom (indexes s))"
    and each: "\<And>src t. indexes s src = Some t \<Longrightarrow> t < next_addr s \<and> index_ok src (trees s t)"
    by (simp_all add: idx_inv_def)
  show "finite (dom (indexes s'))" "inj_on (indexes s') (dom (indexes s'))"
    using fin inj assms(4) by simp_all
  fix src t
  assume st: "indexes s' src = Some t"
  then show "t < next_addr s'"
    using each[of src t] assms(4,6) by simp
  show "index_ok src (trees s' t)"
  proof (cases "t = a")
    case True
    with st assms(4) have "src = idx"
      using inj_same[OF inj _ assms(2), of src] by simp
    with True assms(3,5) show ?thesis
      by simp
  next
    case False
    with st each[of src t] assms(4,5) show ?thesis
      by simp
  qed
qed

lemma store_inv_Put_insert_existing:
  assumes inv: "store_inv s" and ex: "indexes s idx = Some a"
  shows "\<exists>s'. Put_insert e idx s = Inr s' \<and> store_inv s' \<and> indexes s' idx \<noteq> None"
proof -
  from inv have idx: "idx_inv s" and reg: "reg_inv (indexes s) (trees s) (oldestValueTree s)"
    and cnt: "count s = tsize (indexes s) (trees s)"
    by (simp_all add: store_inv_def total_size_def)
  from idx have fin: "finite (dom (indexes s))" and inj: "inj_on (indexes s) (dom (indexes s))"
    and each: "\<And>src t. indexes s src = Some t \<Longrightarrow> t < next_addr s \<and> index_ok src (trees s t)"
    by (simp_all add: idx_inv_def)
  from each[OF ex] have ok: "index_ok idx (trees s a)"
    by simp
  then have b: "bst (trees s a)"
    and wr: "\<And>k w. tree_Get k (trees s a) = Some w \<Longrightarrow> index_of w = idx \<and> Timestamp (e_of w) = k"
    by (simp_all add: index_ok_def)
  from index_ok_Left[OF ok] obtain k0 w0 where l0: "tree_Left (trees s a) = Some (k0, w0)"
    by blast
  define tr1 where "tr1 = (if maxPerSource s \<le> int (tree_Size (trees s a))
                then tree_Remove k0 (trees s a) else trees s a)"
  define tr2 where "tr2 = tree_Put (Timestamp e) (EnvelopeWrapper e idx) tr1"
  have b1: "bst tr1"
    using b by (simp add: tr1_def bst_Remove)
  have wr1: "tree_Get k tr1 = Some w \<Longrightarrow> index_of w = idx \<and> Timestamp (e_of w) = k" for k w
    using wr[of k w] b by (auto simp: tr1_def Get_Remove split: if_splits)
  have ok2: "index_ok idx tr2"
    unfolding tr2_def using b1 wr1 by (rule index_ok_Put)
  from index_ok_Left[OF ok2] obtain k1 w1 where l2: "tree_Left tr2 = Some (k1, w1)"
    by blast
  define st' where "st' = (if k0 \<noteq> k1
              then treeStorage_Put k1 a (treeStorage_Remove k0 a (oldestValueTree s))
              else oldestValueTree s)"
  define s' where "s' = s\<lparr>ingress := ingress s + 1,
           trees := (trees s)(a := tr2),
           expired := (if maxPerSource s \<le> int (tree_Size (trees s a))
                       then expired s + 1 else expired s),
           count := count s + (int (tree_Size tr2) - int (tree_Size (trees s a))),
           oldestValueTree := st'\<rparr>"
  have eff: "Put_insert e idx s = Inr s'"
    unfolding s'_def st'_def by (rule Put_insert_existing[OF ex l0 tr1_def tr2_def l2])
  have "idx_inv s'"
    by (rule idx_inv_upd[OF idx ex ok2]) (simp_all add: s'_def)
  moreover have "reg_inv (indexes s') (trees s') (oldestValueTree s')"
  proof (cases "k0 = k1")
    case True
    then have "min_key tr2 = min_key (trees s a)"
      using l0 l2 by (simp add: min_key_def)
    from reg_inv_same[OF reg this] True show ?thesis
      by (simp add: s'_def st'_def)
  next
    case False
    have "a \<in> ran (indexes s)"
      using ex by (rule ranI)
    from reg_inv_move[OF reg this min_key_Some[OF l0] min_key_Some[OF l2]] False show ?thesis
      by (simp add: s'_def st'_def)
  qed
  moreover have "count s' = total_size s'"
    using tsize_upd[OF fin inj ex, of "trees s" tr2] cnt
    by (simp add: s'_def total_size_def)
  ultimately have "store_inv s'"
    by (simp add: store_inv_def)
  moreover have "indexes s' idx \<noteq> None"
    using ex by (simp add: s'_def)
  ultimately show ?thesis
    using eff by blast
qed

lemma store_inv_Put_insert:
  assumes "store_inv s"
  shows "\<exists>s'. Put_insert e idx s = Inr s' \<and> store_inv s' \<and> indexes s' idx \<noteq> None"
proof (cases "indexes s idx")
  case None
  with assms show ?thesis
    by (rule store_inv_Put_insert_new)
next
  case (Some a)
  with assms show ?thesis
    by (rule store_inv_Put_insert_existing)
qed

lemma min_key_Left: "min_key t = Some k \<Longrightarrow> \<exists>w. tree_Left t = Some (k, w)"
  by (auto simp: min_key_def)

lemma oldest_is_global_min:
  assumes idx: "idx_inv s" and reg: "reg_inv (indexes s) (trees s) (oldestValueTree s)"
    and left: "treeStorage_Left (oldestValueTree s) = Inr (k, a)"
  shows "\<exists>src w. indexes s src = Some a \<and> tree_Left (trees s a) = Some (k, w) \<and> index_of w = src"
    and "indexes s src' = Some a' \<Longrightarrow> tree_Get k' (trees s a') = Some w' \<Longrightarrow> k \<le> k'"
proof -
  from reg have ok: "ovt_ok (oldestValueTree s)"
    and m: "\<And>k t. t \<in> set (registered (oldestValueTree s) k) \<longleftrightarrow>
               t \<in> ran (indexes s) \<and> min_key (trees s t) = Some k"
    by (simp_all add: reg_inv_def)
  from idx have each: "\<And>src t. indexes s src = Some t \<Longrightarrow> index_ok src (trees s t)"
    by (simp add: idx_inv_def)
  note l = treeStorage_Left_Inr[OF ok left]
  from l(1,2) have "a \<in> set (registered (oldestValueTree s) k)"
    by simp
  with m have ar: "a \<in> ran (indexes s)" and mk: "min_key (trees s a) = Some k"
    by simp_all
  from ar obtain src where src: "indexes s src = Some a"
    by (auto simp: ran_def)
  from min_key_Left[OF mk] obtain w where w: "tree_Left (trees s a) = Some (k, w)"
    by blast
  from each[OF src] have okt: "index_ok src (trees s a)" .
  then have "bst (trees s a)"
    by (simp add: index_ok_def)
  from Left_Get(1)[OF this w] okt have "index_of w = src"
    by (simp add: index_ok_def)
  with src w show "\<exists>src w. indexes s src = Some a \<and> tree_Left (trees s a) = Some (k, w) \<and> index_of w = src"
    by blast
  assume s': "indexes s src' = Some a'" and g: "tree_Get k' (trees s a') = Some w'"
  from each[OF s'] have ok': "index_ok src' (trees s a')" .
  from index_ok_Left[OF ok'] obtain k'' w'' where l'': "tree_Left (trees s a') = Some (k'', w'')"
    by blast
  from ok' have "bst (trees s a')"
    by (simp add: index_ok_def)
  from Left_Get(2)[OF this l'' g] have le: "k'' \<le> k'" .
  from s' have "a' \<in> ran (indexes s)"
    by (rule ranI)
  with m[of a' k''] min_key_Some[OF l''] have "a' \<in> set (registered (oldestValueTree s) k'')"
    by simp
  then have "registered (oldestValueTree s) k'' \<noteq> []"
    by auto
  from l(3)[OF this] le show "k \<le> k'"
    by simp
qed

lemma store_inv_truncate_step:
  assumes inv: "store_inv s" and gt: "\<not> count s \<le> size' s"
    and left: "treeStorage_Left (oldestValueTree s) = Inr (k, a)"
    and src: "indexes s src = Some a" and lw: "tree_Left (trees s a) = Some (k, w)"
    and iw: "index_of w = src"
  shows "\<exists>s'. truncate s = Inr s' \<and> store_inv s' \<and>
           count s' = count s - 1 \<and> expired s' = expired s + 1 \<and>
           trees s' = (trees s)(a := tree_Remove k (trees s a)) \<and>
           tree_Size (tree_Remove k (trees s a)) = tree_Size (trees s a) - 1 \<and>
           (if tree_Remove k (trees s a) = NilNode
            then indexes s' = (indexes s)(src := None) \<and>
                 oldestValueTree s' = treeStorage_Remove k a (oldestValueTree s)
            else indexes s' = indexes s \<and>
                 (\<exists>nk. min_key (tree_Remove k (trees s a)) = Some nk \<and>
                   oldestValueTree s' =
                     treeStorage_Put nk a (treeStorage_Remove k a (oldestValueTree s))))"
proof -
  from inv have idx: "idx_inv s" and reg: "reg_inv (indexes s) (trees s) (oldestValueTree s)"
    and cnt: "count s = tsize (indexes s) (trees s)"
    by (simp_all add: store_inv_def total_size_def)
  from idx have fin: "finite (dom (indexes s))" and inj: "inj_on (indexes s) (dom (indexes s))"
    and each: "\<And>src t. indexes s src = Some t \<Longrightarrow> t < next_addr s \<and> index_ok src (trees s t)"
    by (simp_all add: idx_inv_def)
  from each[OF src] have ok: "index_ok src (trees s a)"
    by simp
  then have b: "bst (trees s a)"
    and wr: "\<And>k w. tree_Get k (trees s a) = Some w \<Longrightarrow> index_of w = src \<and> Timestamp (e_of w) = k"
    by (simp_all add: index_ok_def)
  define t' where "t' = tree_Remove k (trees s a)"
  have b': "bst t'"
    using b by (simp add: t'_def bst_Remove)
  have wr': "tree_Get k' t' = Some w' \<Longrightarrow> index_of w' = src \<and> Timestamp (e_of w') = k'" for k' w'
    using wr[of k' w'] b by (auto simp: t'_def Get_Remove split: if_splits)
  from Left_Get(1)[OF b lw] have sz: "tree_Size t' = tree_Size (trees s a) - 1"
    using Size_Remove[OF b, of k] by (simp add: t'_def)
  from ok have "tree_Size (trees s a) \<noteq> 0"
    by (simp add: index_ok_def Size_0)
  with sz have sz1: "int (tree_Size t') = int (tree_Size (trees s a)) - 1"
    by simp
  note step = truncate_step[OF gt left lw t'_def, unfolded iw]
  have mk: "min_key (trees s a) = Some k"
    using lw by (rule min_key_Some)
  show ?thesis
  proof (cases "t' = NilNode")
    case True
    define s' where "s' = s\<lparr>count := count s - 1, expired := expired s + 1,
                 oldestValueTree := treeStorage_Remove k a (oldestValueTree s),
                 trees := (trees s)(a := t'),
                 indexes := (indexes s)(src := None)\<rparr>"
    from True step have eff: "truncate s = Inr s'"
      by (simp add: s'_def)
    have "idx_inv s'"
      unfolding idx_inv_def
    proof (intro conjI allI impI)
      show "finite (dom (indexes s'))"
        using fin by (simp add: s'_def)
      show "inj_on (indexes s') (dom (indexes s'))"
        using inj_on_drop[OF inj, of src] by (simp add: s'_def)
    next
      fix src' t
      assume "indexes s' src' = Some t"
      then have ne: "src' \<noteq> src" and old: "indexes s src' = Some t"
        by (auto simp: s'_def split: if_splits)
      from each[OF old] show "t < next_addr s'"
        by (simp add: s'_def)
      have "t \<noteq> a"
      proof
        assume "t = a"
        with old have "indexes s src' = Some a"
          by simp
        from inj_same[OF inj this src] ne show False
          by simp
      qed
      with each[OF old] show "index_ok src' (trees s' t)"
        by (simp add: s'_def)
    qed
    moreover have "reg_inv (indexes s') (trees s') (oldestValueTree s')"
      using reg_inv_drop[OF reg src inj mk] by (simp add: s'_def)
    moreover have "count s' = total_size s'"
      using tsize_drop[OF fin inj src, of "trees s" t'] cnt sz1 True
      by (simp add: s'_def total_size_def)
    ultimately have "store_inv s'"
      by (simp add: store_inv_def)
    with eff True sz show ?thesis
      by (auto simp: s'_def t'_def)
  next
    case False
    then obtain nk nw where ln: "tree_Left t' = Some (nk, nw)"
      using Left_None[of t'] by (cases "tree_Left t'") auto
    define s' where "s' = s\<lparr>count := count s - 1, expired := expired s + 1,
                      trees := (trees s)(a := t'),
                      oldestValueTree :=
                        treeStorage_Put nk a (treeStorage_Remove k a (oldestValueTree s))\<rparr>"
    from False step ln have eff: "truncate s = Inr s'"
      by (simp add: s'_def Size_0)
    have ok': "index_ok src t'"
      using b' False wr' by (auto simp: index_ok_def)
    have "idx_inv s'"
      by (rule idx_inv_upd[OF idx src ok']) (simp_all add: s'_def)
    moreover have "a \<in> ran (indexes s)"
      using src by (rule ranI)
    from reg_inv_move[OF reg this mk min_key_Some[OF ln]]
    have "reg_inv (indexes s') (trees s') (oldestValueTree s')"
      by (simp add: s'_def)
    moreover have "count s' = total_size s'"
      using tsize_upd[OF fin inj src, of "trees s" t'] cnt sz1
      by (simp add: s'_def total_size_def)
    ultimately have "store_inv s'"
      by (simp add: store_inv_def)
    with eff False sz min_key_Some[OF ln] show ?thesis
      by (auto simp: s'_def t'_def)
  qed
qed

lemma Put_insert_frame:
  assumes "Put_insert e idx s = Inr s'"
  shows "size' s' = size' s" "maxPerSource s' = maxPerSource s" "egress s' = egress s"
  using assms
  by (auto simp: Put_insert_def Let_def split: option.splits prod.splits if_splits)

lemma truncate_frame:
  assumes "truncate s = Inr s'"
  shows "size' s' = size' s" "maxPerSource s' = maxPerSource s" "egress s' = egress s"
    "ingress s' = ingress s"
  using assms
  by (auto simp: truncate_def Let_def split: option.splits prod.splits if_splits sum.splits)

lemma truncate_Left_Inl:
  "\<not> count s \<le> size' s \<Longrightarrow> treeStorage_Left (oldestValueTree s) = Inl p \<Longrightarrow> truncate s = Inl p"
  by (simp add: truncate_def)

lemma store_inv_truncate:
  assumes inv: "store_inv s" and tr: "truncate s = Inr s'"
  shows "store_inv s'"
proof (cases "count s \<le> size' s")
  case True
  with tr inv show ?thesis
    by (simp add: truncate_skip)
next
  case False
  obtain k a where left: "treeStorage_Left (oldestValueTree s) = Inr (k, a)"
    using truncate_Left_Inl[OF False] tr
    by (cases "treeStorage_Left (oldestValueTree s)") auto
  from inv have idx: "idx_inv s" and reg: "reg_inv (indexes s) (trees s) (oldestValueTree s)"
    by (simp_all add: store_inv_def)
  from oldest_is_global_min(1)[OF idx reg left] obtain src w where
    "indexes s src = Some a" "tree_Left (trees s a) = Some (k, w)" "index_of w = src"
    by blast
  from store_inv_truncate_step[OF inv False left this] tr show ?thesis
    by auto
qed

lemma registered_of_index:
  assumes idx: "idx_inv s" and reg: "reg_inv (indexes s) (trees s) (oldestValueTree s)"
    and src: "indexes s src = Some a"
  shows "\<exists>k. a \<in> set (registered (oldestValueTree s) k) \<and> min_key (trees s a) = Some k"
proof -
  from idx src have "index_ok src (trees s a)"
    by (simp add: idx_inv_def)
  from index_ok_Left[OF this] obtain k w where "tree_Left (trees s a) = Some (k, w)"
    by blast
  then have mk: "min_key (trees s a) = Some k"
    by (rule min_key_Some)
  moreover have "a \<in> ran (indexes s)"
    using src by (rule ranI)
  ultimately have "a \<in> set (registered (oldestValueTree s) k)"
    using reg by (simp add: reg_inv_def)
  with mk show ?thesis
    by blast
qed

lemma Left_total:
  assumes inv: "store_inv s" and ne: "indexes s src = Some a"
  shows "\<exists>k t. treeStorage_Left (oldestValueTree s) = Inr (k, t)"
proof -
  from inv have idx: "idx_inv s" and reg: "reg_inv (indexes s) (trees s) (oldestValueTree s)"
    by (simp_all add: store_inv_def)
  from registered_of_index[OF idx reg ne] obtain k where
    "a \<in> set (registered (oldestValueTree s) k)"
    by blast
  then have "registered (oldestValueTree s) k \<noteq> []"
    by auto
  moreover from reg have "ovt_ok (oldestValueTree s)"
    by (simp add: reg_inv_def)
  ultimately show ?thesis
    by (rule_tac treeStorage_Left_total)
qed

lemma truncate_total:
  assumes inv: "store_inv s" and ne: "indexes s src = Some a"
  shows "\<exists>s'. truncate s = Inr s' \<and> store_inv s' \<and>
           count s' = (if count s \<le> size' s then count s else count s - 1)"
proof (cases "count s \<le> size' s")
  case True
  with inv show ?thesis
    by (simp add: truncate_skip)
next
  case False
  from Left_total[OF inv ne] obtain k t where left: "treeStorage_Left (oldestValueTree s) = Inr (k, t)"
    by blast
  from inv have idx: "idx_inv s" and reg: "reg_inv (indexes s) (trees s) (oldestValueTree s)"
    by (simp_all add: store_inv_def)
  from oldest_is_global_min(1)[OF idx reg left] obtain src' w where
    "indexes s src' = Some t" "tree_Left (trees s t) = Some (k, w)" "index_of w = src'"
    by blast
  from store_inv_truncate_step[OF inv False left this] False show ?thesis
    by auto
qed

lemma tsize_nonneg: "0 \<le> tsize ix tr"
  by (simp add: tsize_def sum_nonneg)

lemma tsize_empty: "dom ix = {} \<Longrightarrow> tsize ix tr = 0"
  by (simp add: tsize_def)

lemma count_pos_index:
  assumes "store_inv s" "1 \<le> count s"
  shows "\<exists>src a. indexes s src = Some a"
proof (rule ccontr)
  assume "\<not> ?thesis"
  then have "dom (indexes s) = {}"
    by auto
  from tsize_empty[OF this] assms show False
    by (simp add: store_inv_def total_size_def)
qed

lemma index_count_pos:
  assumes inv: "store_inv s" and src: "indexes s src = Some a"
  shows "1 \<le> count s"
proof -
  from inv have fin: "finite (dom (indexes s))" and inj: "inj_on (indexes s) (dom (indexes s))"
    and ok: "index_ok src (trees s a)" and cnt: "count s = tsize (indexes s) (trees s)"
    using src by (simp_all add: store_inv_def idx_inv_def total_size_def)
  from ok have "tree_Size (trees s a) \<noteq> 0"
    by (simp add: index_ok_def Size_0)
  then have "1 \<le> int (tree_Size (trees s a))"
    by simp
  moreover have "tsize (indexes s) ((trees s)(a := NilNode)) =
      tsize (indexes s) (trees s) - int (tree_Size (trees s a)) + int (tree_Size (NilNode :: envelopeWrapper node))"
    by (rule tsize_upd[OF fin inj src])
  moreover have "0 \<le> tsize (indexes s) ((trees s)(a := NilNode))"
    by (rule tsize_nonneg)
  ultimately show ?thesis
    using cnt by simp
qed

lemma Put_total:
  assumes inv: "store_inv s" and sz: "1 \<le> size' s"
  shows "\<exists>s'. Put e idx s = Inr s' \<and> store_inv s'"
proof -
  from store_inv_Put_insert[OF inv, of e idx] obtain s1 a where
    p1: "Put_insert e idx s = Inr s1" and inv1: "store_inv s1" and i1: "indexes s1 idx = Some a"
    by auto
  from truncate_total[OF inv1 i1] obtain s2 where
    t2: "truncate s1 = Inr s2" and inv2: "store_inv s2"
    and c2: "count s2 = (if count s1 \<le> size' s1 then count s1 else count s1 - 1)"
    by blast
  from Put_insert_frame(1)[OF p1] sz have "1 \<le> size' s1"
    by simp
  with c2 index_count_pos[OF inv1 i1] have "1 \<le> count s2"
    by (auto split: if_splits)
  from count_pos_index[OF inv2 this] obtain src' a' where "indexes s2 src' = Some a'"
    by blast
  from Left_total[OF inv2 this] obtain k t where "treeStorage_Left (oldestValueTree s2) = Inr (k, t)"
    by blast
  with p1 t2 inv2 show ?thesis
    by (simp add: Put_def)
qed

lemma Put_cases:
  assumes "Put e idx s = Inr s'"
  shows "\<exists>s1. Put_insert e idx s = Inr s1 \<and> truncate s1 = Inr s'"
  using assms by (auto simp: Put_def split: sum.splits)

lemma store_inv_Put:
  assumes inv: "store_inv s" and p: "Put e idx s = Inr s'"
  shows "store_inv s'"
proof -
  from Put_cases[OF p] obtain s1 where p1: "Put_insert e idx s = Inr s1" and t: "truncate s1 = Inr s'"
    by blast
  from store_inv_Put_insert[OF inv, of e idx] p1 have "store_inv s1"
    by auto
  from store_inv_truncate[OF this t] show ?thesis .
qed

lemma store_inv_NewStore: "store_inv (NewStore sz mps)"
  by (simp add: store_inv_def idx_inv_def reg_inv_def ovt_ok_def registered_def NewStore_def
      total_size_def tsize_def)

lemma Size_Put_le: "bst t \<Longrightarrow> tree_Size (tree_Put k v t) \<le> Suc (tree_Size t)"
  by (simp add: Size_Put)

lemma bounded_Put_insert:
  assumes inv: "store_inv s" and bd: "bounded s" and p: "Put_insert e idx s = Inr s'"
  shows "bounded s'"
proof (cases "indexes s idx")
  case None
  from inv have each: "\<And>src t. indexes s src = Some t \<Longrightarrow> t < next_addr s"
    by (simp add: store_inv_def idx_inv_def)
  note eff = Put_insert_new[OF None, of e]
  show ?thesis
    unfolding bounded_def
  proof (intro allI impI)
    fix src a
    assume sa: "indexes s' src = Some a"
    show "int (tree_Size (trees s' a)) \<le> max 1 (maxPerSource s')"
    proof (cases "src = idx")
      case True
      with sa p eff show ?thesis
        by auto
    next
      case False
      with sa p eff have old: "indexes s src = Some a"
        by auto
      with each have "a \<noteq> next_addr s"
        by auto
      with old bd p eff show ?thesis
        by (auto simp: bounded_def)
    qed
  qed
next
  case (Some a)
  from inv have idx: "idx_inv s"
    by (simp add: store_inv_def)
  then have inj: "inj_on (indexes s) (dom (indexes s))"
    and ok: "index_ok idx (trees s a)"
    using Some by (simp_all add: idx_inv_def)
  from ok have b: "bst (trees s a)"
    by (simp add: index_ok_def)
  from index_ok_Left[OF ok] obtain k0 w0 where l0: "tree_Left (trees s a) = Some (k0, w0)"
    by blast
  define tr1 where "tr1 = (if maxPerSource s \<le> int (tree_Size (trees s a))
                then tree_Remove k0 (trees s a) else trees s a)"
  define tr2 where "tr2 = tree_Put (Timestamp e) (EnvelopeWrapper e idx) tr1"
  have b1: "bst tr1"
    using b by (simp add: tr1_def bst_Remove)
  obtain k1 w1 where l2: "tree_Left tr2 = Some (k1, w1)"
    using Left_None[of tr2] Put_not_Nil[of "Timestamp e" "EnvelopeWrapper e idx" tr1]
    by (cases "tree_Left tr2") (auto simp: tr2_def)
  note eff = Put_insert_existing[OF Some l0 tr1_def tr2_def l2]
  from ok have pos: "tree_Size (trees s a) \<noteq> 0"
    by (simp add: index_ok_def Size_0)
  have s1: "int (tree_Size tr1) \<le> max 0 (maxPerSource s - 1) \<or>
            (maxPerSource s \<le> int (tree_Size (trees s a)) \<and> tree_Size tr1 = tree_Size (trees s a) - 1)"
    using Size_Remove[OF b, of k0] Left_Get(1)[OF b l0] by (auto simp: tr1_def)
  from bd Some have "int (tree_Size (trees s a)) \<le> max 1 (maxPerSource s)"
    by (simp add: bounded_def)
  with s1 pos Size_Put_le[OF b1, of "Timestamp e" "EnvelopeWrapper e idx"]
  have s2: "int (tree_Size tr2) \<le> max 1 (maxPerSource s)"
    by (auto simp: tr2_def)
  show ?thesis
    unfolding bounded_def
  proof (intro allI impI)
    fix src a'
    assume sa: "indexes s' src = Some a'"
    with p eff have old: "indexes s src = Some a'"
      by auto
    show "int (tree_Size (trees s' a')) \<le> max 1 (maxPerSource s')"
    proof (cases "a' = a")
      case True
      with p eff s2 show ?thesis
        by auto
    next
      case False
      with old bd p eff show ?thesis
        by (auto simp: bounded_def)
    qed
  qed
qed

lemma bounded_truncate:
  assumes inv: "store_inv s" and bd: "bounded s" and t: "truncate s = Inr s'"
  shows "bounded s'"
proof (cases "count s \<le> size' s")
  case True
  with t bd show ?thesis
    by (simp add: truncate_skip)
next
  case False
  obtain k a where left: "treeStorage_Left (oldestValueTree s) = Inr (k, a)"
    using truncate_Left_Inl[OF False] t
    by (cases "treeStorage_Left (oldestValueTree s)") auto
  from inv have idx: "idx_inv s" and reg: "reg_inv (indexes s) (trees s) (oldestValueTree s)"
    by (simp_all add: store_inv_def)
  from oldest_is_global_min(1)[OF idx reg left] obtain src w where
    "indexes s src = Some a" "tree_Left (trees s a) = Some (k, w)" "index_of w = src"
    by blast
  from store_inv_truncate_step[OF inv False left this] t
  have tr: "trees s' = (trees s)(a := tree_Remove k (trees s a))"
    and sz: "tree_Size (tree_Remove k (trees s a)) = tree_Size (trees s a) - 1"
    and ix: "indexes s' = (indexes s)(src := None) \<or> indexes s' = indexes s"
    by (auto split: if_splits)
  note mps = truncate_frame(2)[OF t]
  show ?thesis
    unfolding bounded_def
  proof (intro allI impI)
    fix src' a'
    assume "indexes s' src' = Some a'"
    with ix have old: "indexes s src' = Some a'"
      by (auto split: if_splits)
    with bd have "int (tree_Size (trees s a')) \<le> max 1 (maxPerSource s)"
      by (simp add: bounded_def)
    then show "int (tree_Size (trees s' a')) \<le> max 1 (maxPerSource s')"
      using tr sz mps by (cases "a' = a") auto
  qed
qed

lemma bounded_Put:
  assumes inv: "store_inv s" and bd: "bounded s" and p: "Put e idx s = Inr s'"
  shows "bounded s'"
proof -
  from Put_cases[OF p] obtain s1 where p1: "Put_insert e idx s = Inr s1" and t: "truncate s1 = Inr s'"
    by blast
  from store_inv_Put_insert[OF inv, of e idx] p1 have "store_inv s1"
    by auto
  from bounded_truncate[OF this bounded_Put_insert[OF inv bd p1] t] show ?thesis .
qed

lemma Put_frame:
  assumes "Put e idx s = Inr s'"
  shows "size' s' = size' s" "maxPerSource s' = maxPerSource s" "egress s' = egress s"
proof -
  from Put_cases[OF assms] obtain s1 where "Put_insert e idx s = Inr s1" "truncate s1 = Inr s'"
    by blast
  then show "size' s' = size' s" "maxPerSource s' = maxPerSource s" "egress s' = egress s"
    using Put_insert_frame[of e idx s s1] truncate_frame[of s1 s'] by simp_all
qed

lemma puts_inv:
  assumes "store_inv s" "bounded s" "puts ps s = Inr s'"
  shows "store_inv s' \<and> bounded s' \<and> size' s' = size' s \<and> maxPerSource s' = maxPerSource s"
  using assms
proof (induction ps arbitrary: s)
  case Nil
  then show ?case by simp
next
  case (Cons p ps)
  obtain e idx where pe: "p = (e, idx)"
    by (cases p)
  with Cons.prems(3) obtain s1 where p1: "Put e idx s = Inr s1" and rest: "puts ps s1 = Inr s'"
    by (auto split: sum.splits)
  from Cons.IH[OF store_inv_Put[OF Cons.prems(1) p1] bounded_Put[OF Cons.prems(1,2) p1] rest]
    Put_frame[OF p1]
  show ?case
    by simp
qed

lemma puts_total:
  assumes "store_inv s" "1 \<le> size' s"
  shows "\<exists>s'. puts ps s = Inr s'"
  using assms
proof (induction ps arbitrary: s)
  case Nil
  then show ?case by simp
next
  case (Cons p ps)
  obtain e idx where pe: "p = (e, idx)"
    by (cases p)
  from Put_total[OF Cons.prems, of e idx] obtain s1 where p1: "Put e idx s = Inr s1" and "store_inv s1"
    by blast
  from Cons.IH[OF this(2)] Put_frame(1)[OF p1] Cons.prems(2) pe p1 show ?case
    by auto
qed

lemma bounded_NewStore: "bounded (NewStore sz mps)"
  by (simp add: bounded_def NewStore_def)

section \<open>Helper lemmas for the claims about the store\<close>

lemmas store_eval =
  NewStore_def Put_def Put_insert_def truncate_def treeStorage_Put_def treeStorage_Remove_def
  treeStorage_Left_def buildEnvelope_def index_keys_def index_size_def Let_def

lemma Put_insert_full:
  assumes inv: "store_inv s" and ex: "indexes s idx = Some a"
    and full: "maxPerSource s \<le> int (tree_Size (trees s a))"
  shows "\<exists>k0 s1. min_key (trees s a) = Some k0 \<and> Put_insert e idx s = Inr s1 \<and>
           trees s1 a = tree_Put (Timestamp e) (EnvelopeWrapper e idx) (tree_Remove k0 (trees s a)) \<and>
           expired s1 = expired s + 1"
proof -
  from inv ex have ok: "index_ok idx (trees s a)"
    by (simp add: store_inv_def idx_inv_def)
  from index_ok_Left[OF ok] obtain k0 w0 where l0: "tree_Left (trees s a) = Some (k0, w0)"
    by blast
  define tr1 where "tr1 = (if maxPerSource s \<le> int (tree_Size (trees s a))
                then tree_Remove k0 (trees s a) else trees s a)"
  define tr2 where "tr2 = tree_Put (Timestamp e) (EnvelopeWrapper e idx) tr1"
  obtain k1 w1 where l2: "tree_Left tr2 = Some (k1, w1)"
    using Left_None[of tr2] Put_not_Nil[of "Timestamp e" "EnvelopeWrapper e idx" tr1]
    by (cases "tree_Left tr2") (auto simp: tr2_def)
  note eff = Put_insert_existing[OF ex l0 tr1_def tr2_def l2]
  from full have "tr2 = tree_Put (Timestamp e) (EnvelopeWrapper e idx) (tree_Remove k0 (trees s a))"
    by (simp add: tr2_def tr1_def)
  with eff full min_key_Some[OF l0] show ?thesis
    by auto
qed

lemma registered_once:
  assumes inv: "store_inv s" and src: "indexes s src = Some a"
  shows "trees s a \<noteq> NilNode \<and>
         (\<exists>k. min_key (trees s a) = Some k \<and>
              (\<forall>k'. a \<in> set (registered (oldestValueTree s) k') \<longleftrightarrow> k' = k) \<and>
              distinct (registered (oldestValueTree s) k))"
proof -
  from inv have idx: "idx_inv s" and reg: "reg_inv (indexes s) (trees s) (oldestValueTree s)"
    by (simp_all add: store_inv_def)
  from idx src have "index_ok src (trees s a)"
    by (simp add: idx_inv_def)
  then have ne: "trees s a \<noteq> NilNode"
    by (simp add: index_ok_def)
  from registered_of_index[OF idx reg src] obtain k where
    mk: "min_key (trees s a) = Some k"
    by blast
  have ar: "a \<in> ran (indexes s)"
    using src by (rule ranI)
  from reg have m: "\<And>k t. t \<in> set (registered (oldestValueTree s) k) \<longleftrightarrow>
               t \<in> ran (indexes s) \<and> min_key (trees s t) = Some k"
    and d: "\<And>k. distinct (registered (oldestValueTree s) k)"
    by (simp_all add: reg_inv_def)
  have "\<forall>k'. a \<in> set (registered (oldestValueTree s) k') \<longleftrightarrow> k' = k"
    using m[of a] ar mk by auto
  with ne mk d show ?thesis
    by blast
qed

lemma registered_in_indexes:
  assumes inv: "store_inv s" and r: "a \<in> set (registered (oldestValueTree s) k)"
  shows "\<exists>src. indexes s src = Some a"
proof -
  from inv r have "a \<in> ran (indexes s)"
    by (simp add: store_inv_def reg_inv_def)
  then show ?thesis
    by (auto simp: ran_def)
qed

lemma Put_insert_count:
  assumes inv: "store_inv s" and p: "Put_insert e idx s = Inr s1"
  shows "count s1 \<le> count s + 1"
proof (cases "indexes s idx")
  case None
  from Put_insert_new[OF None, of e] p show ?thesis
    by auto
next
  case (Some a)
  from inv Some have ok: "index_ok idx (trees s a)"
    by (simp add: store_inv_def idx_inv_def)
  then have b: "bst (trees s a)"
    by (simp add: index_ok_def)
  from index_ok_Left[OF ok] obtain k0 w0 where l0: "tree_Left (trees s a) = Some (k0, w0)"
    by blast
  define tr1 where "tr1 = (if maxPerSource s \<le> int (tree_Size (trees s a))
                then tree_Remove k0 (trees s a) else trees s a)"
  define tr2 where "tr2 = tree_Put (Timestamp e) (EnvelopeWrapper e idx) tr1"
  have b1: "bst tr1"
    using b by (simp add: tr1_def bst_Remove)
  obtain k1 w1 where l2: "tree_Left tr2 = Some (k1, w1)"
    using Left_None[of tr2] Put_not_Nil[of "Timestamp e" "EnvelopeWrapper e idx" tr1]
    by (cases "tree_Left tr2") (auto simp: tr2_def)
  note eff = Put_insert_existing[OF Some l0 tr1_def tr2_def l2]
  have "tree_Size tr1 \<le> tree_Size (trees s a)"
    using Size_Remove[OF b, of k0] by (auto simp: tr1_def)
  with Size_Put_le[OF b1, of "Timestamp e" "EnvelopeWrapper e idx"]
  have "int (tree_Size tr2) \<le> int (tree_Size (trees s a)) + 1"
    by (simp add: tr2_def)
  with eff p show ?thesis
    by auto
qed

lemma truncate_characterised:
  assumes inv: "store_inv s" and gt: "size' s < count s" and pos: "0 < count s"
  shows "\<exists>s' src a k w.
     truncate s = Inr s' \<and> store_inv s' \<and>
     indexes s src = Some a \<and> tree_Get k (trees s a) = Some w \<and>
     (\<forall>src' a' k' w'. indexes s src' = Some a' \<and> tree_Get k' (trees s a') = Some w' \<longrightarrow> k \<le> k') \<and>
     count s' = count s - 1 \<and> expired s' = expired s + 1 \<and> size' s' = size' s \<and>
     trees s' = (trees s)(a := tree_Remove k (trees s a)) \<and>
     (\<forall>k'. tree_Get k' (trees s' a) = (if k' = k then None else tree_Get k' (trees s a))) \<and>
     (if trees s' a = NilNode
      then indexes s' = (indexes s)(src := None) \<and>
           (\<forall>k'. a \<notin> set (registered (oldestValueTree s') k'))
      else indexes s' = indexes s \<and>
           (\<exists>nk. min_key (trees s' a) = Some nk \<and>
              (\<forall>k'. a \<in> set (registered (oldestValueTree s') k') \<longleftrightarrow> k' = nk)))"
proof -
  from gt have ngt: "\<not> count s \<le> size' s"
    by simp
  from inv have idx: "idx_inv s" and reg: "reg_inv (indexes s) (trees s) (oldestValueTree s)"
    by (simp_all add: store_inv_def)
  from pos have "1 \<le> count s"
    by simp
  from count_pos_index[OF inv this] obtain src0 a0 where "indexes s src0 = Some a0"
    by blast
  from Left_total[OF inv this] obtain k a where left: "treeStorage_Left (oldestValueTree s) = Inr (k, a)"
    by blast
  from oldest_is_global_min(1)[OF idx reg left] obtain src w where
    src: "indexes s src = Some a" and lw: "tree_Left (trees s a) = Some (k, w)"
    and iw: "index_of w = src"
    by blast
  note glob = oldest_is_global_min(2)[OF idx reg left]
  from idx src have ok: "index_ok src (trees s a)"
    by (simp add: idx_inv_def)
  then have b: "bst (trees s a)"
    by (simp add: index_ok_def)
  from Left_Get(1)[OF b lw] have g: "tree_Get k (trees s a) = Some w" .
  from store_inv_truncate_step[OF inv ngt left src lw iw] obtain s' where
    t: "truncate s = Inr s'" and inv': "store_inv s'"
    and c: "count s' = count s - 1" and e: "expired s' = expired s + 1"
    and tr: "trees s' = (trees s)(a := tree_Remove k (trees s a))"
    and ix: "if tree_Remove k (trees s a) = NilNode
            then indexes s' = (indexes s)(src := None) \<and>
                 oldestValueTree s' = treeStorage_Remove k a (oldestValueTree s)
            else indexes s' = indexes s \<and>
                 (\<exists>nk. min_key (tree_Remove k (trees s a)) = Some nk \<and>
                   oldestValueTree s' =
                     treeStorage_Put nk a (treeStorage_Remove k a (oldestValueTree s)))"
    by blast
  from tr have tra: "trees s' a = tree_Remove k (trees s a)"
    by simp
  from inv' have m: "\<And>k t. t \<in> set (registered (oldestValueTree s') k) \<longleftrightarrow>
               t \<in> ran (indexes s') \<and> min_key (trees s' t) = Some k"
    by (simp add: store_inv_def reg_inv_def)
  have last: "if trees s' a = NilNode
      then indexes s' = (indexes s)(src := None) \<and>
           (\<forall>k'. a \<notin> set (registered (oldestValueTree s') k'))
      else indexes s' = indexes s \<and>
           (\<exists>nk. min_key (trees s' a) = Some nk \<and>
              (\<forall>k'. a \<in> set (registered (oldestValueTree s') k') \<longleftrightarrow> k' = nk))"
  proof (cases "trees s' a = NilNode")
    case True
    then have "\<And>k'. min_key (trees s' a) \<noteq> Some k'"
      by (simp add: min_key_def)
    with m have "\<forall>k'. a \<notin> set (registered (oldestValueTree s') k')"
      by simp
    with True ix tra show ?thesis
      by simp
  next
    case False
    with ix tra obtain nk where ix': "indexes s' = indexes s" and nk: "min_key (trees s' a) = Some nk"
      by auto
    have "a \<in> ran (indexes s')"
      using src ix' by (auto intro: ranI)
    with m[of a] nk have "\<forall>k'. a \<in> set (registered (oldestValueTree s') k') \<longleftrightarrow> k' = nk"
      by auto
    with False ix' nk show ?thesis
      by auto
  qed
  have gets: "\<forall>k'. tree_Get k' (trees s' a) = (if k' = k then None else tree_Get k' (trees s a))"
    using tra b by (simp add: Get_Remove)
  have glob': "\<forall>src' a' k' w'. indexes s src' = Some a' \<and> tree_Get k' (trees s a') = Some w' \<longrightarrow> k \<le> k'"
    using glob by blast
  from t inv' src g glob' c e truncate_frame(1)[OF t] tr gets last show ?thesis
    by blast
qed

lemma scan_append:
  "scan (xs @ ys) start end' f res =
     (case scan xs start end' f res of
        Inl p \<Rightarrow> Inl p
      | Inr (True, r) \<Rightarrow> Inr (True, r)
      | Inr (False, r) \<Rightarrow> scan ys start end' f r)"
  by (induction xs start end' f res rule: scan.induct)
     (auto split: sum.splits bool.splits prod.splits)

lemma scan_before:
  "list_all (\<lambda>x. fst x < start) xs \<Longrightarrow> scan xs start end' f res = Inr (False, res)"
  by (induction xs) auto

lemma treeTraverse_scan:
  "bst t \<Longrightarrow> treeTraverse t start end' f res = scan (entries t) start end' f res"
proof (induction t arbitrary: res)
  case NilNode
  then show ?case by simp
next
  case (Node k w c0 c1)
  show ?case
  proof (cases "start \<le> k")
    case True
    with Node show ?thesis
      by (auto simp: scan_append split: sum.splits bool.splits prod.splits)
  next
    case False
    with Node.prems have "list_all (\<lambda>x. fst x < start) (entries c0)"
      by (auto simp: list_all_iff)
    with False Node show ?thesis
      by (simp add: scan_append scan_before)
  qed
qed

lemma Get_visit_total:
  "ty \<noteq> OtherType \<Longrightarrow> \<exists>b r. Get_visit index ty limit e idx res = Inr (b, r)"
  by (cases ty) (auto simp: Get_visit_def checkEnvelopeType_def Let_def)

lemma treeTraverse_total:
  assumes "ty \<noteq> OtherType"
  shows "\<exists>b r. treeTraverse t start end' (Get_visit index ty limit) res = Inr (b, r)"
proof (induction t arbitrary: res)
  case NilNode
  then show ?case by auto
next
  case (Node k w c0 c1)
  show ?case
  proof (cases "start \<le> k")
    case False
    with Node.IH(2)[of res] show ?thesis
      by simp
  next
    case True
    from Node.IH(1)[of res] obtain b1 r1 where
      l: "treeTraverse c0 start end' (Get_visit index ty limit) res = Inr (b1, r1)"
      by blast
    from Get_visit_total[OF assms, of index limit "e_of w" "index_of w" r1] obtain b2 r2 where
      v: "Get_visit index ty limit (e_of w) (index_of w) r1 = Inr (b2, r2)"
      by blast
    from Node.IH(2)[of r2] obtain b3 r3 where
      r: "treeTraverse c1 start end' (Get_visit index ty limit) r2 = Inr (b3, r3)"
      by blast
    from True l v r show ?thesis
      by (cases b1; cases b2) auto
  qed
qed

lemma matches_Nil [simp]: "matches index ty start end' [] = []"
  by (simp add: matches_def)

lemma matches_Cons:
  "matches index ty start end' (x # xs) =
     (if wanted index ty start end' x then e_of (snd x) # matches index ty start end' xs
      else matches index ty start end' xs)"
  by (simp add: matches_def)

lemma matches_after:
  "list_all (\<lambda>x. end' \<le> fst x) xs \<Longrightarrow> matches index ty start end' xs = []"
  by (induction xs) (auto simp: matches_Cons wanted_def)

lemma Get_visit_in_range:
  assumes "Get_visit index ty limit (e_of w) (index_of w) res = Inr (b, r)"
    and "start \<le> k" "k < end'"
  shows "b = (limit \<le> int (length r))"
    and "(wanted index ty start end' (k, w) \<and> r = res @ [e_of w]) \<or>
         (\<not> wanted index ty start end' (k, w) \<and> r = res)"
  using assms
  by (auto simp: Get_visit_def wanted_def Let_def split: if_splits sum.splits)

lemma scan_Get_visit:
  assumes "sorted_wrt (<) (map fst xs)" "int (length res) < max 1 limit"
    and "scan xs start end' (Get_visit index ty limit) res = Inr (b, res')"
  shows "\<exists>n. res' = res @ take n (matches index ty start end' xs) \<and>
             int (length res') \<le> max 1 limit"
  using assms
proof (induction xs arbitrary: res)
  case Nil
  then show ?case by auto
next
  case (Cons x xs)
  obtain k w where x: "x = (k, w)"
    by (cases x)
  from Cons.prems(1) have sorted: "sorted_wrt (<) (map fst xs)"
    by simp
  show ?case
  proof (cases "start \<le> k")
    case False
    then have nw: "\<not> wanted index ty start end' x"
      by (simp add: wanted_def x)
    from False Cons.prems(3) x have "scan xs start end' (Get_visit index ty limit) res = Inr (b, res')"
      by simp
    from Cons.IH[OF sorted Cons.prems(2) this] nw show ?thesis
      by (simp add: matches_Cons)
  next
    case True
    show ?thesis
    proof (cases "end' \<le> k")
      case e: True
      with True Cons.prems(3) x have "res' = res"
        by simp
      then have "res' = res @ take 0 (matches index ty start end' (x # xs))"
        by simp
      with Cons.prems(2) \<open>res' = res\<close> show ?thesis
        by (metis less_imp_le)
    next
      case False
      then have lt: "k < end'"
        by simp
      obtain b2 r2 where v: "Get_visit index ty limit (e_of w) (index_of w) res = Inr (b2, r2)"
        using Cons.prems(3) True False x
        by (cases "Get_visit index ty limit (e_of w) (index_of w) res") auto
      note g = Get_visit_in_range[OF v True lt]
      from g(2) Cons.prems(2) have len2: "int (length r2) \<le> max 1 limit"
        by auto
      show ?thesis
      proof (cases b2)
        case b2: True
        with v True False Cons.prems(3) x have r: "res' = r2"
          by simp
        from g(2) have "r2 = res @ take (if wanted index ty start end' x then 1 else 0)
                                  (matches index ty start end' (x # xs))"
          by (auto simp: matches_Cons x)
        with r len2 show ?thesis
          by blast
      next
        case nb2: False
        with v True False Cons.prems(3) x
        have rest: "scan xs start end' (Get_visit index ty limit) r2 = Inr (b, res')"
          by simp
        from nb2 g(1) have "int (length r2) < max 1 limit"
          by simp
        from Cons.IH[OF sorted this rest] obtain n where
          n: "res' = r2 @ take n (matches index ty start end' xs)"
          and le: "int (length res') \<le> max 1 limit"
          by blast
        from g(2) n have "res' = res @ take (if wanted index ty start end' x then Suc n else n)
                                  (matches index ty start end' (x # xs))"
          by (auto simp: matches_Cons x)
        with le show ?thesis
          by blast
      qed
    qed
  qed
qed

lemma scan_Get_visit_exact:
  assumes "sorted_wrt (<) (map fst xs)" "ty \<noteq> OtherType" "int (length res) < limit"
  shows "\<exists>b. scan xs start end' (Get_visit index ty limit) res =
           Inr (b, res @ take (nat limit - length res) (matches index ty start end' xs))"
  using assms
proof (induction xs arbitrary: res)
  case Nil
  then show ?case by auto
next
  case (Cons x xs)
  obtain k w where x: "x = (k, w)"
    by (cases x)
  from Cons.prems(1) have sorted: "sorted_wrt (<) (map fst xs)"
    and later: "list_all (\<lambda>y. k < fst y) xs"
    by (auto simp: x list_all_iff)
  show ?case
  proof (cases "start \<le> k")
    case False
    then have nw: "\<not> wanted index ty start end' x"
      by (simp add: wanted_def x)
    from Cons.IH[OF sorted Cons.prems(2,3)] False nw x show ?thesis
      by (auto simp: matches_Cons)
  next
    case True
    show ?thesis
    proof (cases "end' \<le> k")
      case e: True
      with later have "list_all (\<lambda>y. end' \<le> fst y) (x # xs)"
        by (auto simp: list_all_iff x)
      from matches_after[OF this] True e x show ?thesis
        by auto
    next
      case False
      then have lt: "k < end'"
        by simp
      from Get_visit_total[OF Cons.prems(2)] obtain b2 r2 where
        v: "Get_visit index ty limit (e_of w) (index_of w) res = Inr (b2, r2)"
        by blast
      note g = Get_visit_in_range[OF v True lt]
      show ?thesis
      proof (cases "wanted index ty start end' x")
        case nw: False
        with g have r2: "r2 = res" and nb: "\<not> b2"
          using Cons.prems(3) by (auto simp: x)
        from Cons.IH[OF sorted Cons.prems(2,3)] v r2 nb True False nw x show ?thesis
          by (auto simp: matches_Cons)
      next
        case wa: True
        with g have r2: "r2 = res @ [e_of w]" and b2: "b2 = (limit \<le> int (length res) + 1)"
          by (auto simp: x)
        from Cons.prems(3) obtain m where m: "nat limit - length res = Suc m"
          by (cases "nat limit - length res") auto
        show ?thesis
        proof (cases b2)
          case True
          with b2 Cons.prems(3) m have "m = 0"
            by auto
          with m wa v True \<open>start \<le> k\<close> False x r2 show ?thesis
            by (auto simp: matches_Cons)
        next
          case nb: False
          with b2 have "int (length r2) < limit"
            by (simp add: r2)
          from Cons.IH[OF sorted Cons.prems(2) this] obtain b where
            "scan xs start end' (Get_visit index ty limit) r2 =
               Inr (b, r2 @ take (nat limit - length r2) (matches index ty start end' xs))"
            by blast
          moreover from m have "nat limit - length r2 = m"
            by (simp add: r2)
          ultimately show ?thesis
            using m wa v nb \<open>start \<le> k\<close> False x r2 by (auto simp: matches_Cons)
        qed
      qed
    qed
  qed
qed

lemma store_inv_egress: "store_inv (s\<lparr>egress := n\<rparr>) = store_inv s"
  by (simp add: store_inv_def idx_inv_def total_size_def)

lemma Get_state:
  assumes "Get index start end' ty limit s = Inr (res, s')"
  shows "s' = s \<or> s' = s\<lparr>egress := egress s + length res\<rparr>"
  using assms by (auto simp: Get_def split: option.splits sum.splits)

lemma reachable_inv: "reachable s \<Longrightarrow> store_inv s"
proof (induction rule: reachable.induct)
  case (reachable_NewStore sz mps)
  show ?case by (rule store_inv_NewStore)
next
  case (reachable_Put s e index s')
  then show ?case by (simp add: store_inv_Put)
next
  case (reachable_Get s index start end' envelopeType limit res s')
  from Get_state[OF reachable_Get.hyps(2)] reachable_Get.IH show ?case
    by (auto simp: store_inv_egress)
qed

lemma matches_set:
  assumes "e \<in> set (matches index ty start end' xs)"
  shows "\<exists>w k. (k, w) \<in> set xs \<and> e = e_of w \<and> start \<le> k \<and> k < end' \<and> index_of w = index"
proof -
  from assms obtain x where "x \<in> set xs" "wanted index ty start end' x" "e = e_of (snd x)"
    by (auto simp: matches_def)
  then have "(fst x, snd x) \<in> set xs \<and> e = e_of (snd x) \<and> start \<le> fst x \<and> fst x < end' \<and>
             index_of (snd x) = index"
    by (simp add: wanted_def)
  then show ?thesis
    by blast
qed

lemma matches_sorted:
  assumes "sorted_wrt (<) (map fst xs)" "\<And>k w. (k, w) \<in> set xs \<Longrightarrow> Timestamp (e_of w) = k"
  shows "sorted_wrt (<) (map Timestamp (matches index ty start end' xs))"
proof -
  have "map Timestamp (matches index ty start end' xs) =
        map fst (filter (wanted index ty start end') xs)"
    using assms(2) by (auto simp: matches_def)
  moreover have "sorted_wrt (<) (map fst (filter (wanted index ty start end') xs))"
    using assms(1) by (simp add: sorted_wrt_map sorted_wrt_filter)
  ultimately show ?thesis
    by simp
qed

lemma index_entries:
  assumes "store_inv s" "indexes s index = Some a"
  shows "bst (trees s a)"
    and "(k, w) \<in> set (entries (trees s a)) \<Longrightarrow>
           tree_Get k (trees s a) = Some w \<and> index_of w = index \<and> Timestamp (e_of w) = k"
proof -
  from assms have ok: "index_ok index (trees s a)"
    by (simp add: store_inv_def idx_inv_def)
  then show b: "bst (trees s a)"
    by (simp add: index_ok_def)
  assume "(k, w) \<in> set (entries (trees s a))"
  with Get_entries[OF b] have "tree_Get k (trees s a) = Some w"
    by simp
  with ok show "tree_Get k (trees s a) = Some w \<and> index_of w = index \<and> Timestamp (e_of w) = k"
    by (simp add: index_ok_def)
qed

lemma Get_traverse:
  assumes "indexes s index = Some a" "Get index start end' ty limit s = Inr (res, s')"
  shows "\<exists>b. treeTraverse (trees s a) start end' (Get_visit index ty limit) [] = Inr (b, res)"
  using assms by (auto simp: Get_def split: sum.splits)

lemma Get_window_inv:
  assumes inv: "store_inv s" and g: "Get index start end' ty limit s = Inr (res, s')"
  shows "(\<forall>e \<in> set res. start \<le> Timestamp e \<and> Timestamp e < end' \<and>
            (\<exists>a. indexes s index = Some a \<and>
                 tree_Get (Timestamp e) (trees s a) = Some (EnvelopeWrapper e index))) \<and>
         int (length res) \<le> max 1 limit \<and>
         sorted_wrt (<) (map Timestamp res) \<and>
         (indexes s index = None \<longrightarrow> res = [])"
proof (cases "indexes s index")
  case None
  with g show ?thesis
    by (simp add: Get_def)
next
  case (Some a)
  note ie = index_entries[OF inv Some]
  let ?xs = "entries (trees s a)"
  from Get_traverse[OF Some g] obtain b where
    "treeTraverse (trees s a) start end' (Get_visit index ty limit) [] = Inr (b, res)"
    by blast
  with ie(1) have sc: "scan ?xs start end' (Get_visit index ty limit) [] = Inr (b, res)"
    by (simp add: treeTraverse_scan)
  have sorted: "sorted_wrt (<) (map fst ?xs)"
    using ie(1) by (rule bst_sorted)
  have "int (length ([] :: Envelope list)) < max 1 limit"
    by simp
  from scan_Get_visit[OF sorted this sc] obtain n where
    res: "res = take n (matches index ty start end' ?xs)" and len: "int (length res) \<le> max 1 limit"
    by (metis append_Nil)
  have "Timestamp (e_of w) = k" if "(k, w) \<in> set ?xs" for k w
    using ie(2)[OF that] by simp
  with sorted have "sorted_wrt (<) (map Timestamp (matches index ty start end' ?xs))"
    by (rule matches_sorted)
  then have so: "sorted_wrt (<) (map Timestamp res)"
    unfolding res take_map[symmetric] by (rule sorted_wrt_take)
  have each: "start \<le> Timestamp e \<and> Timestamp e < end' \<and>
            (\<exists>a. indexes s index = Some a \<and>
                 tree_Get (Timestamp e) (trees s a) = Some (EnvelopeWrapper e index))"
    if "e \<in> set res" for e
  proof -
    from that res have "e \<in> set (matches index ty start end' ?xs)"
      by (auto dest: in_set_takeD)
    from matches_set[OF this] obtain w k where
      kw: "(k, w) \<in> set ?xs" and e: "e = e_of w" and r: "start \<le> k" "k < end'"
      by blast
    from ie(2)[OF kw] e have "tree_Get k (trees s a) = Some w" "Timestamp e = k"
      and "w = EnvelopeWrapper e index"
      by (cases w; simp)+
    with r Some show ?thesis
      by simp
  qed
  from each len so Some show ?thesis
    by simp
qed

lemma Get_exact:
  assumes inv: "store_inv s" and ix: "indexes s index = Some a"
    and ty: "ty \<noteq> OtherType" and lim: "1 \<le> limit"
  shows "Get index start end' ty limit s =
     Inr (take (nat limit) (matches index ty start end' (entries (trees s a))),
          s\<lparr>egress := egress s +
             length (take (nat limit) (matches index ty start end' (entries (trees s a))))\<rparr>)"
proof -
  note ie = index_entries[OF inv ix]
  have sorted: "sorted_wrt (<) (map fst (entries (trees s a)))"
    using ie(1) by (rule bst_sorted)
  from scan_Get_visit_exact[OF sorted ty, of "[]" limit start end' index] lim obtain b where
    "scan (entries (trees s a)) start end' (Get_visit index ty limit) [] =
       Inr (b, take (nat limit) (matches index ty start end' (entries (trees s a))))"
    by auto
  with ie(1) ix show ?thesis
    by (simp add: Get_def treeTraverse_scan)
qed

lemma Get_total_any:
  assumes "ty \<noteq> OtherType"
  shows "\<exists>res s'. Get index start end' ty limit s = Inr (res, s')"
proof (cases "indexes s index")
  case None
  then show ?thesis
    by (simp add: Get_def)
next
  case (Some a)
  from treeTraverse_total[OF assms, of "trees s a" start end' index limit "[]"] obtain b r where
    "treeTraverse (trees s a) start end' (Get_visit index ty limit) [] = Inr (b, r)"
    by blast
  with Some show ?thesis
    by (simp add: Get_def)
qed

lemmas get_eval =
  Get_def Get_visit_def checkEnvelopeType_def buildTypedEnvelope_def

lemma reachable_puts:
  assumes "reachable s" "puts ps s = Inr s'"
  shows "reachable s'"
  using assms
proof (induction ps arbitrary: s)
  case Nil
  then show ?case by simp
next
  case (Cons p ps)
  obtain e idx where "p = (e, idx)"
    by (cases p)
  with Cons.prems(2) obtain s1 where p1: "Put e idx s = Inr s1" and rest: "puts ps s1 = Inr s'"
    by (auto split: sum.splits)
  from Cons.IH[OF reachable_Put[OF Cons.prems(1) p1] rest] show ?case .
qed

lemma Get_keys_exact:
  assumes inv: "store_inv s" and ix: "indexes s index = Some a"
    and win: "\<And>k. k \<in> set (map fst (entries (trees s a))) \<Longrightarrow> start \<le> k \<and> k < end'"
    and lim: "1 \<le> limit"
  shows "\<exists>res s'. Get index start end' NilType limit s = Inr (res, s') \<and>
           map Timestamp res = take (nat limit) (map fst (entries (trees s a)))"
proof -
  note ie = index_entries[OF inv ix]
  let ?xs = "entries (trees s a)"
  have all: "wanted index NilType start end' x" if "x \<in> set ?xs" for x
  proof -
    from that have x: "(fst x, snd x) \<in> set ?xs"
      by simp
    from that have "fst x \<in> set (map fst ?xs)"
      by simp
    from win[OF this] ie(2)[OF x] show ?thesis
      by (simp add: wanted_def checkEnvelopeType_def)
  qed
  then have "filter (wanted index NilType start end') ?xs = ?xs"
    by (simp add: filter_id_conv)
  then have m: "matches index NilType start end' ?xs = map (\<lambda>x. e_of (snd x)) ?xs"
    by (simp add: matches_def)
  have "Timestamp (e_of (snd x)) = fst x" if "x \<in> set ?xs" for x
  proof -
    from that have "(fst x, snd x) \<in> set ?xs"
      by simp
    from ie(2)[OF this] show ?thesis
      by simp
  qed
  then have "map Timestamp (map (\<lambda>x. e_of (snd x)) ?xs) = map fst ?xs"
    by simp
  then have "take (nat limit) (map Timestamp (map (\<lambda>x. e_of (snd x)) ?xs)) =
             take (nat limit) (map fst ?xs)"
    by (rule arg_cong)
  with m have "map Timestamp (take (nat limit) (matches index NilType start end' ?xs)) =
               take (nat limit) (map fst ?xs)"
    by (simp only: take_map)
  with Get_exact[OF inv ix _ lim, of NilType start end'] show ?thesis
    by simp
qed

lemma reachable_store_a1234: "reachable store_a1234"
proof -
  have "puts [(buildEnvelope 1 ''a'', ''a''), (buildEnvelope 2 ''a'', ''a''),
              (buildEnvelope 3 ''a'', ''a''), (buildEnvelope 4 ''a'', ''a'')] (NewStore 5 10) =
        Inr store_a1234"
    unfolding store_a1234_def by (simp add: store_eval)
  with reachable_NewStore show ?thesis
    by (rule reachable_puts)
qed

lemma reachable_store_a134_b2: "reachable store_a134_b2"
proof -
  have "puts [(buildEnvelope 1 ''a'', ''a''), (buildEnvelope 2 ''b'', ''b''),
              (buildEnvelope 3 ''a'', ''a''), (buildEnvelope 4 ''a'', ''a'')] (NewStore 5 10) =
        Inr store_a134_b2"
    unfolding store_a134_b2_def by (simp add: store_eval)
  with reachable_NewStore show ?thesis
    by (rule reachable_puts)
qed

lemma reachable_store_typed: "reachable store_typed"
proof -
  have "puts [(buildTypedEnvelope 1 ''a'' Log, ''a''), (buildTypedEnvelope 2 ''a'' Counter, ''a''),
              (buildTypedEnvelope 3 ''a'' Gauge, ''a''), (buildTypedEnvelope 4 ''a'' Timer, ''a''),
              (buildTypedEnvelope 5 ''a'' Event, ''a'')] (NewStore 5 10) =
        Inr store_typed"
    unfolding store_typed_def by (simp add: store_eval get_eval)
  with reachable_NewStore show ?thesis
    by (rule reachable_puts)
qed

lemma reachable_store_a1: "reachable store_a1"
proof -
  have "Put (buildEnvelope 1 ''a'') ''a'' (NewStore 5 10) = Inr store_a1"
    unfolding store_a1_def by (simp add: store_eval)
  with reachable_NewStore show ?thesis
    by (rule reachable_Put)
qed

lemma reachable_store_x_under_a: "reachable store_x_under_a"
proof -
  have "Put (buildEnvelope 1 ''x'') ''a'' (NewStore 5 10) = Inr store_x_under_a"
    unfolding store_x_under_a_def by (simp add: store_eval)
  with reachable_NewStore show ?thesis
    by (rule reachable_Put)
qed

subsection \<open>Stores filled by source id\<close>

lemma entries_Put_subset: "set (entries (tree_Put k v t)) \<subseteq> insert (k, v) (set (entries t))"
  by (induction t) auto

lemma entries_Remove_subset: "set (entries (tree_Remove k t)) \<subseteq> set (entries t)"
proof (induction t)
  case NilNode
  then show ?case by simp
next
  case (Node k' v c0 c1)
  show ?case
  proof (cases "k < k' \<or> k' < k")
    case True
    with Node show ?thesis by auto
  next
    case False
    show ?thesis
    proof (cases c1)
      case NilNode
      with False show ?thesis by auto
    next
      case (Node k1 v1 c10 c11)
      obtain m c1' where rm: "removeMin k1 v1 c10 c11 = (m, c1')"
        by (cases "removeMin k1 v1 c10 c11")
      from removeMin_set[OF rm] have "insert m (set (entries c1')) = set (entries c1)"
        by (simp add: Node)
      then have "set (entries (Node (fst m) (snd m) c0 c1')) \<subseteq> set (entries c0) \<union> set (entries c1)"
        by auto
      with False rm Node show ?thesis
        by (auto split: prod.splits)
    qed
  qed
qed

lemma source_keyed_upd:
  assumes sk: "source_keyed s" and tr: "trees s' = (trees s)(a := t')"
    and sub: "\<And>k w. (k, w) \<in> set (entries t') \<Longrightarrow>
                (k, w) \<in> set (entries (trees s a)) \<or> SourceId (e_of w) = index_of w"
  shows "source_keyed s'"
  unfolding source_keyed_def
proof (intro allI impI)
  fix a' k' w' assume x: "(k', w') \<in> set (entries (trees s' a'))"
  show "SourceId (e_of w') = index_of w'"
  proof (cases "a' = a")
    case True
    with x tr have "(k', w') \<in> set (entries t')"
      by simp
    from sub[OF this] sk show ?thesis
      unfolding source_keyed_def by blast
  next
    case False
    with x tr have "(k', w') \<in> set (entries (trees s a'))"
      by simp
    with sk show ?thesis
      unfolding source_keyed_def by blast
  qed
qed

lemma source_keyed_NewStore: "source_keyed (NewStore sz mps)"
  by (simp add: source_keyed_def NewStore_def)

lemma source_keyed_Put_insert:
  assumes sk: "source_keyed s" and p: "Put_insert e (SourceId e) s = Inr s'"
  shows "source_keyed s'"
proof -
  let ?w = "EnvelopeWrapper e (SourceId e)"
  have "\<exists>a t'. trees s' = (trees s)(a := t') \<and>
          set (entries t') \<subseteq> insert (Timestamp e, ?w) (set (entries (trees s a)))"
  proof (cases "indexes s (SourceId e)")
    case None
    from p show ?thesis
      unfolding Put_insert_new[OF None] by (intro exI[of _ "next_addr s"]) auto
  next
    case (Some a)
    define tr1 where "tr1 = (if maxPerSource s \<le> int (tree_Size (trees s a))
        then tree_Remove (case tree_Left (trees s a) of Some (k, w) \<Rightarrow> k | None \<Rightarrow> 0) (trees s a)
        else trees s a)"
    define tr2 where "tr2 = tree_Put (Timestamp e) ?w tr1"
    have "set (entries tr1) \<subseteq> set (entries (trees s a))"
      using entries_Remove_subset by (auto simp: tr1_def)
    with entries_Put_subset[of "Timestamp e" ?w tr1]
    have sub: "set (entries tr2) \<subseteq> insert (Timestamp e, ?w) (set (entries (trees s a)))"
      by (auto simp: tr2_def)
    from p Some have "trees s' = (trees s)(a := tr2)"
      by (auto simp: Put_insert_def Let_def tr1_def tr2_def split: option.splits if_splits prod.splits)
    with sub show ?thesis
      by blast
  qed
  then obtain a t' where tr: "trees s' = (trees s)(a := t')"
    and sub: "set (entries t') \<subseteq> insert (Timestamp e, ?w) (set (entries (trees s a)))"
    by blast
  have "(k, w) \<in> set (entries (trees s a)) \<or> SourceId (e_of w) = index_of w"
    if "(k, w) \<in> set (entries t')" for k w
    using that sub by auto
  from source_keyed_upd[OF sk tr this] show ?thesis .
qed

lemma source_keyed_truncate:
  assumes sk: "source_keyed s" and t: "truncate s = Inr s'"
  shows "source_keyed s'"
proof (cases "count s \<le> size' s")
  case True
  with t sk show ?thesis
    by (simp add: truncate_def)
next
  case False
  with t obtain k a where tr: "trees s' = (trees s)(a := tree_Remove k (trees s a))"
    by (auto simp: truncate_def Let_def split: if_splits sum.splits option.splits prod.splits)
  have "(k', w) \<in> set (entries (trees s a)) \<or> SourceId (e_of w) = index_of w"
    if "(k', w) \<in> set (entries (tree_Remove k (trees s a)))" for k' w
    using that entries_Remove_subset[of k "trees s a"] by blast
  from source_keyed_upd[OF sk tr this] show ?thesis .
qed

lemma source_keyed_Put:
  assumes "source_keyed s" and "Put e (SourceId e) s = Inr s'"
  shows "source_keyed s'"
proof -
  from Put_cases[OF assms(2)] obtain s1 where
    "Put_insert e (SourceId e) s = Inr s1" "truncate s1 = Inr s'"
    by blast
  with assms(1) show ?thesis
    using source_keyed_Put_insert source_keyed_truncate by blast
qed

lemma filed_source_keyed: "filed_by_source_id s \<Longrightarrow> source_keyed s"
proof (induction rule: filed_by_source_id.induct)
  case (filed_NewStore sz mps)
  show ?case by (rule source_keyed_NewStore)
next
  case (filed_Put s e s')
  then show ?case using source_keyed_Put by blast
next
  case (filed_Get s index start end' envelopeType limit res s')
  from Get_state[OF filed_Get.hyps(2)] have "trees s' = trees s"
    by auto
  with filed_Get.IH show ?case
    by (simp add: source_keyed_def)
qed

lemma filed_puts:
  assumes "filed_by_source_id s" "puts ps s = Inr s'" "\<forall>p \<in> set ps. snd p = SourceId (fst p)"
  shows "filed_by_source_id s'"
  using assms
proof (induction ps arbitrary: s)
  case Nil
  then show ?case by simp
next
  case (Cons p ps)
  obtain e idx where pe: "p = (e, idx)"
    by (cases p)
  with Cons.prems(3) have idx: "idx = SourceId e"
    by simp
  from pe idx Cons.prems(2) obtain s1 where p1: "Put e (SourceId e) s = Inr s1"
    and rest: "puts ps s1 = Inr s'"
    by (auto split: sum.splits)
  from Cons.prems(3) have "\<forall>p \<in> set ps. snd p = SourceId (fst p)"
    by simp
  from Cons.IH[OF filed_Put[OF Cons.prems(1) p1] rest this] show ?case .
qed

lemma filed_store_a134_b2: "filed_by_source_id store_a134_b2"
proof -
  have "puts [(buildEnvelope 1 ''a'', ''a''), (buildEnvelope 2 ''b'', ''b''),
              (buildEnvelope 3 ''a'', ''a''), (buildEnvelope 4 ''a'', ''a'')] (NewStore 5 10) =
        Inr store_a134_b2"
    unfolding store_a134_b2_def by (simp add: store_eval)
  from filed_puts[OF filed_NewStore this] show ?thesis
    by (simp add: buildEnvelope_def)
qed

lemma Get_source_id:
  assumes inv: "store_inv s" and sk: "source_keyed s"
    and g: "Get index start end' ty limit s = Inr (res, s')"
  shows "\<forall>e \<in> set res. SourceId e = index"
proof
  fix e assume "e \<in> set res"
  with Get_window_inv[OF inv g] obtain a where ix: "indexes s index = Some a"
    and tg: "tree_Get (Timestamp e) (trees s a) = Some (EnvelopeWrapper e index)"
    by blast
  from index_entries(1)[OF inv ix] tg
  have "(Timestamp e, EnvelopeWrapper e index) \<in> set (entries (trees s a))"
    by (simp add: Get_entries)
  with sk have "SourceId (e_of (EnvelopeWrapper e index)) = index_of (EnvelopeWrapper e index)"
    unfolding source_keyed_def by blast
  then show "SourceId e = index"
    by simp
qed

section \<open>Properties of the batched ingress client\<close>


lemma assertEnvelopes_ok:
  "OtherItem \<notin> set batch \<Longrightarrow> assertEnvelopes batch = Inr (item_envelopes batch)"
  by (induction batch rule: assertEnvelopes.induct) auto

lemma failures_snoc:
  "failures c n (rs @ [(ctx, req)]) =
     failures c n rs @ (case c (n + length rs) ctx req of None \<Rightarrow> [] | Some msg \<Rightarrow> [FailedToWrite msg])"
  by (induction rs arbitrary: n) (auto split: option.splits)

lemma write_ok:
  assumes "OtherItem \<notin> set batch"
  shows "\<exists>b'. write' c batch b = Inr b' \<and> ring b' = ring b \<and> pending b' = pending b \<and>
           droppedMetric b' = droppedMetric b \<and>
           rpcs b' = rpcs b @ [(WithTimeout Background (3 * Second),
                                \<lparr>LocalOnly = True, Envelopes = item_envelopes batch\<rparr>)] \<and>
           logged b' = logged b @
             (case c (length (rpcs b)) (WithTimeout Background (3 * Second))
                     \<lparr>LocalOnly = True, Envelopes = item_envelopes batch\<rparr> of
                None \<Rightarrow> [] | Some msg \<Rightarrow> [FailedToWrite msg])"
  using assms by (simp add: write'_def assertEnvelopes_ok Let_def split: option.splits)

lemma item_envelopes_append:
  "item_envelopes (xs @ ys) = item_envelopes xs @ item_envelopes ys"
  by (induction xs rule: item_envelopes.induct) auto

lemma writeBatch_ok:
  assumes "flusher_inv c b"
  shows "\<exists>b'. writeBatch c b = Inr b' \<and> flusher_inv c b' \<and> ring b' = ring b \<and>
           droppedMetric b' = droppedMetric b \<and> taken b' = taken b \<and>
           filter (\<lambda>x. \<not> is_failure x) (logged b') = filter (\<lambda>x. \<not> is_failure x) (logged b)"
proof (cases "pending b = []")
  case True
  with assms show ?thesis
    by (simp add: writeBatch_def)
next
  case False
  from assms have no: "OtherItem \<notin> set (pending b)"
    and sent: "\<forall>x \<in> set (rpcs b). fst x = WithTimeout Background (3 * Second) \<and> LocalOnly (snd x)"
    and lg: "filter is_failure (logged b) = failures c 0 (rpcs b)"
    by (simp_all add: flusher_inv_def)
  from write_ok[OF no, of c b] obtain b1 where
    w: "write' c (pending b) b = Inr b1" and r: "ring b1 = ring b"
    and d: "droppedMetric b1 = droppedMetric b"
    and rp: "rpcs b1 = rpcs b @ [(WithTimeout Background (3 * Second),
                                \<lparr>LocalOnly = True, Envelopes = item_envelopes (pending b)\<rparr>)]"
    and l1: "logged b1 = logged b @
             (case c (length (rpcs b)) (WithTimeout Background (3 * Second))
                     \<lparr>LocalOnly = True, Envelopes = item_envelopes (pending b)\<rparr> of
                None \<Rightarrow> [] | Some msg \<Rightarrow> [FailedToWrite msg])"
    by blast
  have eff: "writeBatch c b = Inr (b1\<lparr>pending := []\<rparr>)"
    using False w by (simp add: writeBatch_def)
  have "filter is_failure (logged b1) = failures c 0 (rpcs b1)"
    unfolding rp l1 failures_snoc using lg by (auto split: option.splits)
  with sent rp have "flusher_inv c (b1\<lparr>pending := []\<rparr>)"
    by (auto simp: flusher_inv_def)
  moreover have "taken (b1\<lparr>pending := []\<rparr>) = taken b"
    by (simp add: taken_def rp)
  moreover have "filter (\<lambda>x. \<not> is_failure x) (logged b1) = filter (\<lambda>x. \<not> is_failure x) (logged b)"
    unfolding l1 by (auto split: option.splits)
  ultimately show ?thesis
    using eff r d by simp
qed

lemma flusher_inv_frame:
  assumes "flusher_inv c b" "pending b' = pending b" "rpcs b' = rpcs b"
    "filter is_failure (logged b') = filter is_failure (logged b)"
  shows "flusher_inv c b'"
  using assms by (simp add: flusher_inv_def)

lemma start_turn_ok:
  assumes "flusher_inv c b"
  shows "\<exists>b'. start_turn c size_b lapsed b = Inr b' \<and> flusher_inv c b' \<and>
           ring b' = snd (snd (OneToOne_TryNext (ring b))) \<and>
           taken b' = taken b @ (case fst (OneToOne_TryNext (ring b)) of None \<Rightarrow> [] | Some e \<Rightarrow> [e]) \<and>
           droppedMetric b' =
             droppedMetric b + (case fst (snd (OneToOne_TryNext (ring b))) of None \<Rightarrow> 0 | Some n \<Rightarrow> n) \<and>
           filter (\<lambda>x. \<not> is_failure x) (logged b') =
             filter (\<lambda>x. \<not> is_failure x) (logged b) @
               (case fst (snd (OneToOne_TryNext (ring b))) of None \<Rightarrow> [] | Some n \<Rightarrow> [Dropped n])"
proof -
  obtain e dropped r where t: "OneToOne_TryNext (ring b) = (e, dropped, r)"
    by (cases "OneToOne_TryNext (ring b)") auto
  define b2 where "b2 = (case dropped of None \<Rightarrow> b\<lparr>ring := r\<rparr> | Some n \<Rightarrow> alert n (b\<lparr>ring := r\<rparr>))"
  have inv2: "flusher_inv c b2"
    by (rule flusher_inv_frame[OF assms]) (auto simp: b2_def alert_def split: option.splits)
  have r2: "ring b2 = r" and tk2: "taken b2 = taken b"
    and d2: "droppedMetric b2 = droppedMetric b + (case dropped of None \<Rightarrow> 0 | Some n \<Rightarrow> n)"
    and l2: "filter (\<lambda>x. \<not> is_failure x) (logged b2) =
             filter (\<lambda>x. \<not> is_failure x) (logged b) @ (case dropped of None \<Rightarrow> [] | Some n \<Rightarrow> [Dropped n])"
    by (auto simp: b2_def alert_def taken_def split: option.splits)
  show ?thesis
  proof (cases e)
    case None
    then have st: "start_turn c size_b lapsed b = Batcher_Flush c lapsed b2"
      by (simp add: start_turn_def t b2_def Let_def)
    show ?thesis
    proof (cases lapsed)
      case True
      from writeBatch_ok[OF inv2] True st None t r2 tk2 d2 l2 show ?thesis
        by (auto simp: Batcher_Flush_def)
    next
      case False
      with st None t inv2 r2 tk2 d2 l2 show ?thesis
        by (auto simp: Batcher_Flush_def)
    qed
  next
    case (Some env)
    then have st: "start_turn c size_b lapsed b = Batcher_Write c size_b lapsed (EnvelopeItem env) b2"
      by (simp add: start_turn_def t b2_def Let_def)
    define b3 where "b3 = b2\<lparr>pending := pending b2 @ [EnvelopeItem env]\<rparr>"
    from inv2 have inv3: "flusher_inv c b3"
      by (auto simp: flusher_inv_def b3_def)
    have tk3: "taken b3 = taken b @ [env]"
      using tk2 by (simp add: taken_def b3_def item_envelopes_append)
    have f3: "ring b3 = r" "droppedMetric b3 = droppedMetric b2" "logged b3 = logged b2"
      using r2 by (simp_all add: b3_def)
    show ?thesis
    proof (cases "int (length (pending b3)) \<ge> size_b \<or> lapsed")
      case True
      then have "Batcher_Write c size_b lapsed (EnvelopeItem env) b2 = writeBatch c b3"
        by (simp add: Batcher_Write_def b3_def Let_def)
      with writeBatch_ok[OF inv3] st Some t tk3 f3 d2 l2 show ?thesis
        by auto
    next
      case False
      then have "Batcher_Write c size_b lapsed (EnvelopeItem env) b2 = Inr b3"
        by (simp add: Batcher_Write_def b3_def Let_def)
      with inv3 st Some t tk3 f3 d2 l2 show ?thesis
        by auto
    qed
  qed
qed

lemma Send_inv:
  assumes "flusher_inv c b"
  shows "flusher_inv c (fst (Send in' b))" "taken (fst (Send in' b)) = taken b"
  using assms by (simp_all add: Send_def flusher_inv_def taken_def)

lemma run_ok:
  assumes "flusher_inv c b"
  shows "\<exists>b'. run c size_b evs b = Inr b' \<and> flusher_inv c b'"
  using assms
proof (induction evs arbitrary: b)
  case Nil
  then show ?case by simp
next
  case (Cons ev evs)
  show ?case
  proof (cases ev)
    case (Caller in')
    with Cons.IH[OF Send_inv(1)[OF Cons.prems, of in']] show ?thesis
      by simp
  next
    case (Flusher lapsed)
    from start_turn_ok[OF Cons.prems, of size_b lapsed] obtain b1 where
      "start_turn c size_b lapsed b = Inr b1" "flusher_inv c b1"
      by blast
    with Cons.IH[OF this(2)] Flusher show ?thesis
      by simp
  qed
qed

lemma run_apart_from_log:
  assumes "flusher_inv c b" "flusher_inv c' b'" "apart_from_log b b'"
  shows "\<exists>b1 b1'. run c size_b evs b = Inr b1 \<and> run c' size_b evs b' = Inr b1' \<and>
           apart_from_log b1 b1'"
  using assms
proof (induction evs arbitrary: b b')
  case Nil
  then show ?case by simp
next
  case (Cons ev evs)
  show ?case
  proof (cases ev)
    case (Caller in')
    have "apart_from_log (fst (Send in' b)) (fst (Send in' b'))"
      using Cons.prems(3) by (simp add: apart_from_log_def Send_def)
    from Cons.IH[OF Send_inv(1)[OF Cons.prems(1)] Send_inv(1)[OF Cons.prems(2)] this] Caller
    show ?thesis
      by simp
  next
    case (Flusher lapsed)
    from Cons.prems(3) have same: "ring b = ring b'" "pending b = pending b'"
      "droppedMetric b = droppedMetric b'" "rpcs b = rpcs b'"
      by (simp_all add: apart_from_log_def)
    from start_turn_ok[OF Cons.prems(1), of size_b lapsed] obtain b1 where
      s1: "start_turn c size_b lapsed b = Inr b1" and i1: "flusher_inv c b1"
      by blast
    from start_turn_ok[OF Cons.prems(2), of size_b lapsed] obtain b1' where
      s1': "start_turn c' size_b lapsed b' = Inr b1'" and i1': "flusher_inv c' b1'"
      by blast
    have "apart_from_log b1 b1'"
      using s1 s1' same
      by (auto simp: apart_from_log_def start_turn_def Batcher_Flush_def Batcher_Write_def
          writeBatch_def write'_def alert_def Let_def
          split: prod.splits option.splits if_splits sum.splits)
    from Cons.IH[OF i1 i1' this] s1 s1' Flusher show ?thesis
      by simp
  qed
qed

lemma flusher_inv_client_of: "flusher_inv c (client_of r)"
  by (simp add: flusher_inv_def client_of_def)

lemma run_taken:
  assumes "flusher_inv c b" "run c size_b evs b = Inr b'"
  shows "taken b' = taken b @ ring_reads evs (ring b)"
  using assms
proof (induction evs arbitrary: b)
  case Nil
  then show ?case by simp
next
  case (Cons ev evs)
  show ?case
  proof (cases ev)
    case (Caller in')
    with Cons.prems(2) have r: "run c size_b evs (fst (Send in' b)) = Inr b'"
      by simp
    from Cons.IH[OF Send_inv(1)[OF Cons.prems(1)] r] Send_inv(2)[OF Cons.prems(1), of in'] Caller
    show ?thesis
      by (simp add: Send_def)
  next
    case (Flusher lapsed)
    from start_turn_ok[OF Cons.prems(1), of size_b lapsed] obtain b1 where
      s1: "start_turn c size_b lapsed b = Inr b1" and i1: "flusher_inv c b1"
      and r1: "ring b1 = snd (snd (OneToOne_TryNext (ring b)))"
      and t1: "taken b1 = taken b @ (case fst (OneToOne_TryNext (ring b)) of None \<Rightarrow> [] | Some e \<Rightarrow> [e])"
      by blast
    from Cons.prems(2) Flusher s1 have "run c size_b evs b1 = Inr b'"
      by simp
    from Cons.IH[OF i1 this] r1 t1 Flusher show ?thesis
      by (simp split: prod.splits)
  qed
qed







lemmas client_eval =
  client_of_def NewOneToOne_def OneToOne_Set_def OneToOne_TryNext_def alert_def Send_def
  write'_def writeBatch_def Batcher_Write_def Batcher_Flush_def start_turn_def
  fails_first_def three_envelopes_def example_run_def buildEnvelope_def Second_def Let_def


section \<open>The routing hash on the source ids of the tests\<close>

text \<open>One lemma for each byte consumed; the state after each byte is a numeral.\<close>

lemma crc_byte_0:
  "MakeTable ECMA (ucast (18446744073709551615 :: 64 word) XOR 115) XOR drop_bit 8 18446744073709551615 = 5035847810921599720"
  by code_simp

lemma crc_step_0:
  "update 18446744073709551615 (MakeTable ECMA) (115 # p) = update 5035847810921599720 (MakeTable ECMA) p"
  by (simp only: update.simps crc_byte_0)

lemma crc_byte_1:
  "MakeTable ECMA (ucast (5035847810921599720 :: 64 word) XOR 111) XOR drop_bit 8 5035847810921599720 = 17677486244088989527"
  by code_simp

lemma crc_step_1:
  "update 5035847810921599720 (MakeTable ECMA) (111 # p) = update 17677486244088989527 (MakeTable ECMA) p"
  by (simp only: update.simps crc_byte_1)

lemma crc_byte_2:
  "MakeTable ECMA (ucast (17677486244088989527 :: 64 word) XOR 117) XOR drop_bit 8 17677486244088989527 = 1100610225083427726"
  by code_simp

lemma crc_step_2:
  "update 17677486244088989527 (MakeTable ECMA) (117 # p) = update 1100610225083427726 (MakeTable ECMA) p"
  by (simp only: update.simps crc_byte_2)

lemma crc_byte_3:
  "MakeTable ECMA (ucast (1100610225083427726 :: 64 word) XOR 114) XOR drop_bit 8 1100610225083427726 = 12036043443057623750"
  by code_simp

lemma crc_step_3:
  "update 1100610225083427726 (MakeTable ECMA) (114 # p) = update 12036043443057623750 (MakeTable ECMA) p"
  by (simp only: update.simps crc_byte_3)

lemma crc_byte_4:
  "MakeTable ECMA (ucast (12036043443057623750 :: 64 word) XOR 99) XOR drop_bit 8 12036043443057623750 = 18015122272476290062"
  by code_simp

lemma crc_step_4:
  "update 12036043443057623750 (MakeTable ECMA) (99 # p) = update 18015122272476290062 (MakeTable ECMA) p"
  by (simp only: update.simps crc_byte_4)

lemma crc_byte_5:
  "MakeTable ECMA (ucast (18015122272476290062 :: 64 word) XOR 101) XOR drop_bit 8 18015122272476290062 = 3418397904512492861"
  by code_simp

lemma crc_step_5:
  "update 18015122272476290062 (MakeTable ECMA) (101 # p) = update 3418397904512492861 (MakeTable ECMA) p"
  by (simp only: update.simps crc_byte_5)

lemma crc_byte_6:
  "MakeTable ECMA (ucast (3418397904512492861 :: 64 word) XOR 45) XOR drop_bit 8 3418397904512492861 = 9058095298377420396"
  by code_simp

lemma crc_step_6:
  "update 3418397904512492861 (MakeTable ECMA) (45 # p) = update 9058095298377420396 (MakeTable ECMA) p"
  by (simp only: update.simps crc_byte_6)

lemma crc_byte_7:
  "MakeTable ECMA (ucast (9058095298377420396 :: 64 word) XOR 48) XOR drop_bit 8 9058095298377420396 = 10746005073977438131"
  by code_simp

lemma crc_step_7:
  "update 9058095298377420396 (MakeTable ECMA) (48 # p) = update 10746005073977438131 (MakeTable ECMA) p"
  by (simp only: update.simps crc_byte_7)

lemma crc_byte_8:
  "MakeTable ECMA (ucast (9058095298377420396 :: 64 word) XOR 49) XOR drop_bit 8 9058095298377420396 = 2742470140831412444"
  by code_simp

lemma crc_step_8:
  "update 9058095298377420396 (MakeTable ECMA) (49 # p) = update 2742470140831412444 (MakeTable ECMA) p"
  by (simp only: update.simps crc_byte_8)

lemma crc_byte_9:
  "MakeTable ECMA (ucast (18446744073709551615 :: 64 word) XOR 49) XOR drop_bit 8 18446744073709551615 = 15407079833324893458"
  by code_simp

lemma crc_step_9:
  "update 18446744073709551615 (MakeTable ECMA) (49 # p) = update 15407079833324893458 (MakeTable ECMA) p"
  by (simp only: update.simps crc_byte_9)

lemma crc_byte_10:
  "MakeTable ECMA (ucast (15407079833324893458 :: 64 word) XOR 50) XOR drop_bit 8 15407079833324893458 = 18150230534629729959"
  by code_simp

lemma crc_step_10:
  "update 15407079833324893458 (MakeTable ECMA) (50 # p) = update 18150230534629729959 (MakeTable ECMA) p"
  by (simp only: update.simps crc_byte_10)

lemma crc_byte_11:
  "MakeTable ECMA (ucast (18150230534629729959 :: 64 word) XOR 51) XOR drop_bit 8 18150230534629729959 = 14978083663061924510"
  by code_simp

lemma crc_step_11:
  "update 18150230534629729959 (MakeTable ECMA) (51 # p) = update 14978083663061924510 (MakeTable ECMA) p"
  by (simp only: update.simps crc_byte_11)

lemma crc_byte_12:
  "MakeTable ECMA (ucast (14978083663061924510 :: 64 word) XOR 52) XOR drop_bit 8 14978083663061924510 = 3580775586559638743"
  by code_simp

lemma crc_step_12:
  "update 14978083663061924510 (MakeTable ECMA) (52 # p) = update 3580775586559638743 (MakeTable ECMA) p"
  by (simp only: update.simps crc_byte_12)

lemma crc_byte_13:
  "MakeTable ECMA (ucast (3580775586559638743 :: 64 word) XOR 53) XOR drop_bit 8 3580775586559638743 = 11698303443272442646"
  by code_simp

lemma crc_step_13:
  "update 3580775586559638743 (MakeTable ECMA) (53 # p) = update 11698303443272442646 (MakeTable ECMA) p"
  by (simp only: update.simps crc_byte_13)

lemma crc_byte_14:
  "MakeTable ECMA (ucast (11698303443272442646 :: 64 word) XOR 54) XOR drop_bit 8 11698303443272442646 = 18128425328362403633"
  by code_simp

lemma crc_step_14:
  "update 11698303443272442646 (MakeTable ECMA) (54 # p) = update 18128425328362403633 (MakeTable ECMA) p"
  by (simp only: update.simps crc_byte_14)

lemma crc_byte_15:
  "MakeTable ECMA (ucast (18128425328362403633 :: 64 word) XOR 55) XOR drop_bit 8 18128425328362403633 = 10353600487410745951"
  by code_simp

lemma crc_step_15:
  "update 18128425328362403633 (MakeTable ECMA) (55 # p) = update 10353600487410745951 (MakeTable ECMA) p"
  by (simp only: update.simps crc_byte_15)

lemma crc_byte_16:
  "MakeTable ECMA (ucast (10353600487410745951 :: 64 word) XOR 56) XOR drop_bit 8 10353600487410745951 = 11778179352998676470"
  by code_simp

lemma crc_step_16:
  "update 10353600487410745951 (MakeTable ECMA) (56 # p) = update 11778179352998676470 (MakeTable ECMA) p"
  by (simp only: update.simps crc_byte_16)

lemma crc_byte_17:
  "MakeTable ECMA (ucast (11778179352998676470 :: 64 word) XOR 57) XOR drop_bit 8 11778179352998676470 = 7395533204333446661"
  by code_simp

lemma crc_step_17:
  "update 11778179352998676470 (MakeTable ECMA) (57 # p) = update 7395533204333446661 (MakeTable ECMA) p"
  by (simp only: update.simps crc_byte_17)

lemmas crc_steps =
  crc_step_0 crc_step_1 crc_step_2 crc_step_3 crc_step_4 crc_step_5
  crc_step_6 crc_step_7 crc_step_8 crc_step_9 crc_step_10 crc_step_11
  crc_step_12 crc_step_13 crc_step_14 crc_step_15 crc_step_16 crc_step_17

lemma crc_init: "NOT (0 :: 64 word) = 18446744073709551615"
  by simp

lemma crc_final_source_0: "NOT (10746005073977438131 :: 64 word) = 7700738999732113484"
  by simp

lemma bytes_source_0: "map of_char ''source-0'' = [115, 111, 117, 114, 99, 101, 45, 48 :: 8 word]"
  by simp

lemma hasher_source_0: "hasher ''source-0'' = 7700738999732113484"
  unfolding hasher_def Checksum_def crc_init bytes_source_0
  by (simp only: crc_steps update.simps(1) crc_final_source_0)

lemma crc_final_source_1: "NOT (2742470140831412444 :: 64 word) = 15704273932878139171"
  by simp

lemma bytes_source_1: "map of_char ''source-1'' = [115, 111, 117, 114, 99, 101, 45, 49 :: 8 word]"
  by simp

lemma hasher_source_1: "hasher ''source-1'' = 15704273932878139171"
  unfolding hasher_def Checksum_def crc_init bytes_source_1
  by (simp only: crc_steps update.simps(1) crc_final_source_1)

lemma crc_final_check: "NOT (7395533204333446661 :: 64 word) = 11051210869376104954"
  by simp

lemma bytes_check: "map of_char ''123456789'' = [49, 50, 51, 52, 53, 54, 55, 56, 57 :: 8 word]"
  by simp

lemma hasher_check: "hasher ''123456789'' = 11051210869376104954"
  unfolding hasher_def Checksum_def crc_init bytes_check
  by (simp only: crc_steps update.simps(1) crc_final_check)

text \<open>
  C8. The routing hash is CRC-64 with the ECMA polynomial over the bytes of the source
  id: the hash of "source-0" is 7700738999732113484 and the hash of "source-1" is
  15704273932878139171, the values the routing tests rely on; and on "123456789" it
  gives 0x995DC9BBDF1939FA, the check value of the reflected CRC-64 with the ECMA
  polynomial.
\<close>

theorem hasher_source_ids:
  "hasher ''source-0'' = 7700738999732113484 \<and>
   hasher ''source-1'' = 15704273932878139171 \<and>
   hasher ''123456789'' = 0x995DC9BBDF1939FA"
  by (simp only: hasher_source_0 hasher_source_1 hasher_check)

section \<open>The claims about the store\<close>

text \<open>
  C3 (as amended). For every finite sequence of Put calls starting from the empty
  store, after each Put returns: every index holds at most max(1, maxPerSource)
  entries, and the count field equals the sum of the sizes of all indexes. When an
  index is full, Put removes its oldest entry before it inserts the new envelope, and
  increments the Expired counter. With a size of at least 1 every Put of the sequence
  returns.
\<close>

theorem put_sequence_capacity:
  "(1 \<le> sz \<longrightarrow> (\<exists>s. puts ps (NewStore sz mps) = Inr s)) \<and>
   (\<forall>s. puts ps (NewStore sz mps) = Inr s \<longrightarrow>
      (\<forall>src a. indexes s src = Some a \<longrightarrow> int (tree_Size (trees s a)) \<le> max 1 mps) \<and>
      count s = (\<Sum>src \<in> dom (indexes s). int (tree_Size (trees s (the (indexes s src))))) \<and>
      (\<forall>e idx a. indexes s idx = Some a \<and> mps \<le> int (tree_Size (trees s a)) \<longrightarrow>
         (\<exists>k0 s1. min_key (trees s a) = Some k0 \<and> Put_insert e idx s = Inr s1 \<and>
            trees s1 a =
              tree_Put (Timestamp e) (EnvelopeWrapper e idx) (tree_Remove k0 (trees s a)) \<and>
            expired s1 = expired s + 1)))"
proof (intro conjI allI impI)
  assume "1 \<le> sz"
  then show "\<exists>s. puts ps (NewStore sz mps) = Inr s"
    using puts_total[OF store_inv_NewStore, of sz mps ps] by (simp add: NewStore_def)
next
  fix s
  assume p: "puts ps (NewStore sz mps) = Inr s"
  from puts_inv[OF store_inv_NewStore bounded_NewStore p]
  have inv: "store_inv s" and bd: "bounded s" and mps: "maxPerSource s = mps"
    by (simp_all add: NewStore_def)
  from inv show "count s = (\<Sum>src \<in> dom (indexes s). int (tree_Size (trees s (the (indexes s src)))))"
    by (simp add: store_inv_def total_size_def tsize_def)
  {
    fix src a
    assume "indexes s src = Some a"
    with bd mps show "int (tree_Size (trees s a)) \<le> max 1 mps"
      by (simp add: bounded_def)
  }
  {
    fix e idx a
    assume "indexes s idx = Some a \<and> mps \<le> int (tree_Size (trees s a))"
    with mps have "indexes s idx = Some a" "maxPerSource s \<le> int (tree_Size (trees s a))"
      by simp_all
    from Put_insert_full[OF inv this]
    show "\<exists>k0 s1. min_key (trees s a) = Some k0 \<and> Put_insert e idx s = Inr s1 \<and>
            trees s1 a =
              tree_Put (Timestamp e) (EnvelopeWrapper e idx) (tree_Remove k0 (trees s a)) \<and>
            expired s1 = expired s + 1" .
  }
qed

theorem put_sequence_capacity_witness:
  "puts [(buildEnvelope 1 ''b'', ''b''), (buildEnvelope 2 ''a'', ''a''),
         (buildEnvelope 3 ''a'', ''a''), (buildEnvelope 4 ''a'', ''a'')] (NewStore 5 2) =
     Inr (projr (puts [(buildEnvelope 1 ''b'', ''b''), (buildEnvelope 2 ''a'', ''a''),
         (buildEnvelope 3 ''a'', ''a''), (buildEnvelope 4 ''a'', ''a'')] (NewStore 5 2))) \<and>
   index_keys (projr (puts [(buildEnvelope 1 ''b'', ''b''), (buildEnvelope 2 ''a'', ''a''),
         (buildEnvelope 3 ''a'', ''a''), (buildEnvelope 4 ''a'', ''a'')] (NewStore 5 2))) ''a'' = [3, 4] \<and>
   int (tree_Size (trees (projr (puts [(buildEnvelope 1 ''b'', ''b''), (buildEnvelope 2 ''a'', ''a''),
         (buildEnvelope 3 ''a'', ''a''), (buildEnvelope 4 ''a'', ''a'')] (NewStore 5 2))) 1)) \<le> max 1 2 \<and>
   count (projr (puts [(buildEnvelope 1 ''b'', ''b''), (buildEnvelope 2 ''a'', ''a''),
         (buildEnvelope 3 ''a'', ''a''), (buildEnvelope 4 ''a'', ''a'')] (NewStore 5 2))) = 3 \<and>
   expired (projr (puts [(buildEnvelope 1 ''b'', ''b''), (buildEnvelope 2 ''a'', ''a''),
         (buildEnvelope 3 ''a'', ''a''), (buildEnvelope 4 ''a'', ''a'')] (NewStore 5 2))) = 1"
proof -
  define ps where "ps = [(buildEnvelope 1 ''b'', ''b''), (buildEnvelope 2 ''a'', ''a''),
         (buildEnvelope 3 ''a'', ''a''), (buildEnvelope 4 ''a'', ''a'')]"
  define s where "s = projr (puts ps (NewStore 5 2))"
  have run: "puts ps (NewStore 5 2) = Inr s"
    unfolding s_def ps_def by (simp add: store_eval)
  have a: "indexes s ''a'' = Some 1"
    unfolding s_def ps_def by (simp add: store_eval)
  from put_sequence_capacity[of 5 ps 2] run a
  have "int (tree_Size (trees s 1)) \<le> max 1 2"
    by blast
  moreover have "index_keys s ''a'' = [3, 4]" "count s = 3" "expired s = 1"
    unfolding s_def ps_def by (simp_all add: store_eval)
  ultimately show ?thesis
    using run unfolding s_def ps_def by simp
qed

theorem put_sequence_capacity_counterexample:
  "puts [(buildEnvelope 1 ''a'', ''a'')] (NewStore 5 0) =
     Inr (projr (puts [(buildEnvelope 1 ''a'', ''a'')] (NewStore 5 0))) \<and>
   maxPerSource (projr (puts [(buildEnvelope 1 ''a'', ''a'')] (NewStore 5 0))) = 0 \<and>
   index_size (projr (puts [(buildEnvelope 1 ''a'', ''a'')] (NewStore 5 0))) ''a'' = 1"
  by (simp add: store_eval)

text \<open>
  C9. The invariant \<open>store_inv\<close> holds of the empty store and is preserved by every Put
  and every truncation that returns. Under it, each index present in the indexes map is
  non-empty and is registered in oldestValueTree under exactly one key, once, and that
  key is the index's current minimum timestamp; conversely, every tree registered in
  oldestValueTree is present in the indexes map.
\<close>

theorem registration_invariant:
  "store_inv (NewStore sz mps) \<and>
   (store_inv s \<longrightarrow>
      (\<forall>src a. indexes s src = Some a \<longrightarrow>
         trees s a \<noteq> NilNode \<and>
         (\<exists>k. min_key (trees s a) = Some k \<and>
              (\<forall>k'. a \<in> set (registered (oldestValueTree s) k') \<longleftrightarrow> k' = k) \<and>
              distinct (registered (oldestValueTree s) k))) \<and>
      (\<forall>k a. a \<in> set (registered (oldestValueTree s) k) \<longrightarrow> (\<exists>src. indexes s src = Some a)) \<and>
      (\<forall>e idx s'. Put e idx s = Inr s' \<longrightarrow> store_inv s') \<and>
      (\<forall>s'. truncate s = Inr s' \<longrightarrow> store_inv s'))"
  using store_inv_NewStore registered_once registered_in_indexes store_inv_Put store_inv_truncate
  by blast

theorem registration_invariant_witness:
  "store_inv (projr (puts [(buildEnvelope 1 ''b'', ''b''), (buildEnvelope 2 ''a'', ''a'')] (NewStore 5 2))) \<and>
   indexes (projr (puts [(buildEnvelope 1 ''b'', ''b''), (buildEnvelope 2 ''a'', ''a'')] (NewStore 5 2))) ''a'' = Some 1 \<and>
   trees (projr (puts [(buildEnvelope 1 ''b'', ''b''), (buildEnvelope 2 ''a'', ''a'')] (NewStore 5 2))) 1 \<noteq> NilNode \<and>
   min_key (trees (projr (puts [(buildEnvelope 1 ''b'', ''b''), (buildEnvelope 2 ''a'', ''a'')] (NewStore 5 2))) 1) = Some 2 \<and>
   registered (oldestValueTree (projr (puts [(buildEnvelope 1 ''b'', ''b''), (buildEnvelope 2 ''a'', ''a'')] (NewStore 5 2)))) 2 = [1] \<and>
   store_inv (projr (Put (buildEnvelope 0 ''a'') ''a''
     (projr (puts [(buildEnvelope 1 ''b'', ''b''), (buildEnvelope 2 ''a'', ''a'')] (NewStore 5 2)))))"
proof -
  define s where "s = projr (puts [(buildEnvelope 1 ''b'', ''b''), (buildEnvelope 2 ''a'', ''a'')] (NewStore 5 2))"
  have run: "puts [(buildEnvelope 1 ''b'', ''b''), (buildEnvelope 2 ''a'', ''a'')] (NewStore 5 2) = Inr s"
    unfolding s_def by (simp add: store_eval)
  from puts_inv[OF store_inv_NewStore bounded_NewStore run] have inv: "store_inv s"
    by simp
  have a: "indexes s ''a'' = Some 1"
    unfolding s_def by (simp add: store_eval)
  have p: "Put (buildEnvelope 0 ''a'') ''a'' s = Inr (projr (Put (buildEnvelope 0 ''a'') ''a'' s))"
    unfolding s_def by (simp add: store_eval)
  from registration_invariant[of 5 2 s] inv a p
  have "trees s 1 \<noteq> NilNode" "store_inv (projr (Put (buildEnvelope 0 ''a'') ''a'' s))"
    by blast+
  moreover have "min_key (trees s 1) = Some 2" "registered (oldestValueTree s) 2 = [1]"
    unfolding s_def by (simp_all add: store_eval min_key_def registered_def)
  ultimately show ?thesis
    using inv a unfolding s_def by blast
qed

text \<open>
  C4 (as amended). Whenever the count of a non-empty store exceeds the size cap,
  truncate removes exactly one envelope, the one whose timestamp is the global minimum
  across all sources, decrements count and increments the Expired counter; if that
  removal empties the index, the index is deleted from the indexes map and is no longer
  registered, otherwise it is registered in oldestValueTree under its new minimum and
  under no other key. There is no pruning quota and no loop: Put raises count by one at
  most and calls truncate each time, so one removal brings count back to the cap, and
  the loop of the specification with any quota of one or more does the same.
\<close>

theorem truncate_removes_oldest:
  "(store_inv s \<and> size' s < count s \<and> 0 < count s \<longrightarrow>
     (\<exists>s' src a k w.
        truncate s = Inr s' \<and> store_inv s' \<and>
        indexes s src = Some a \<and> tree_Get k (trees s a) = Some w \<and>
        (\<forall>src' a' k' w'.
           indexes s src' = Some a' \<and> tree_Get k' (trees s a') = Some w' \<longrightarrow> k \<le> k') \<and>
        count s' = count s - 1 \<and> expired s' = expired s + 1 \<and> size' s' = size' s \<and>
        trees s' = (trees s)(a := tree_Remove k (trees s a)) \<and>
        (\<forall>k'. tree_Get k' (trees s' a) = (if k' = k then None else tree_Get k' (trees s a))) \<and>
        (if trees s' a = NilNode
         then indexes s' = (indexes s)(src := None) \<and>
              (\<forall>k'. a \<notin> set (registered (oldestValueTree s') k'))
         else indexes s' = indexes s \<and>
              (\<exists>nk. min_key (trees s' a) = Some nk \<and>
                 (\<forall>k'. a \<in> set (registered (oldestValueTree s') k') \<longleftrightarrow> k' = nk))))) \<and>
   (store_inv s \<and> count s \<le> size' s \<and> Put_insert e idx s = Inr s1 \<longrightarrow>
      count s1 \<le> size' s1 + 1 \<and>
      (\<exists>s2. truncate s1 = Inr s2 \<and> count s2 \<le> size' s2 \<and>
         (\<forall>quota. spec_truncate (Suc quota) s1 = Inr s2)))"
proof (intro conjI impI)
  assume "store_inv s \<and> size' s < count s \<and> 0 < count s"
  then show "\<exists>s' src a k w.
        truncate s = Inr s' \<and> store_inv s' \<and>
        indexes s src = Some a \<and> tree_Get k (trees s a) = Some w \<and>
        (\<forall>src' a' k' w'.
           indexes s src' = Some a' \<and> tree_Get k' (trees s a') = Some w' \<longrightarrow> k \<le> k') \<and>
        count s' = count s - 1 \<and> expired s' = expired s + 1 \<and> size' s' = size' s \<and>
        trees s' = (trees s)(a := tree_Remove k (trees s a)) \<and>
        (\<forall>k'. tree_Get k' (trees s' a) = (if k' = k then None else tree_Get k' (trees s a))) \<and>
        (if trees s' a = NilNode
         then indexes s' = (indexes s)(src := None) \<and>
              (\<forall>k'. a \<notin> set (registered (oldestValueTree s') k'))
         else indexes s' = indexes s \<and>
              (\<exists>nk. min_key (trees s' a) = Some nk \<and>
                 (\<forall>k'. a \<in> set (registered (oldestValueTree s') k') \<longleftrightarrow> k' = nk)))"
    using truncate_characterised[of s] by blast
next
  assume h: "store_inv s \<and> count s \<le> size' s \<and> Put_insert e idx s = Inr s1"
  then have inv: "store_inv s" and le: "count s \<le> size' s" and p: "Put_insert e idx s = Inr s1"
    by simp_all
  from Put_insert_count[OF inv p] le Put_insert_frame(1)[OF p]
  show c1: "count s1 \<le> size' s1 + 1"
    by simp
  from store_inv_Put_insert[OF inv, of e idx] p obtain a where
    inv1: "store_inv s1" and i1: "indexes s1 idx = Some a"
    by auto
  from truncate_total[OF inv1 i1] obtain s2 where
    t: "truncate s1 = Inr s2"
    and c2: "count s2 = (if count s1 \<le> size' s1 then count s1 else count s1 - 1)"
    by blast
  from c2 c1 truncate_frame(1)[OF t] have le2: "count s2 \<le> size' s2"
    by (auto split: if_splits)
  have "spec_truncate (Suc quota) s1 = Inr s2" for quota
  proof (cases "size' s1 < count s1")
    case True
    with t le2 show ?thesis
      by (cases quota) simp_all
  next
    case False
    with t show ?thesis
      by (simp add: truncate_skip)
  qed
  with t le2 show "\<exists>s2. truncate s1 = Inr s2 \<and> count s2 \<le> size' s2 \<and>
         (\<forall>quota. spec_truncate (Suc quota) s1 = Inr s2)"
    by blast
qed

theorem truncate_removes_oldest_witness:
  "store_inv (projr (Put_insert (buildEnvelope 2 ''b'') ''b''
      (projr (Put (buildEnvelope 1 ''a'') ''a'' (NewStore 1 10))))) \<and>
   size' (projr (Put_insert (buildEnvelope 2 ''b'') ''b''
      (projr (Put (buildEnvelope 1 ''a'') ''a'' (NewStore 1 10))))) = 1 \<and>
   count (projr (Put_insert (buildEnvelope 2 ''b'') ''b''
      (projr (Put (buildEnvelope 1 ''a'') ''a'' (NewStore 1 10))))) = 2 \<and>
   store_inv (projr (truncate (projr (Put_insert (buildEnvelope 2 ''b'') ''b''
      (projr (Put (buildEnvelope 1 ''a'') ''a'' (NewStore 1 10))))))) \<and>
   count (projr (truncate (projr (Put_insert (buildEnvelope 2 ''b'') ''b''
      (projr (Put (buildEnvelope 1 ''a'') ''a'' (NewStore 1 10))))))) = 1 \<and>
   expired (projr (truncate (projr (Put_insert (buildEnvelope 2 ''b'') ''b''
      (projr (Put (buildEnvelope 1 ''a'') ''a'' (NewStore 1 10))))))) = 1"
proof -
  define s0 where "s0 = projr (Put (buildEnvelope 1 ''a'') ''a'' (NewStore 1 10))"
  define s where "s = projr (Put_insert (buildEnvelope 2 ''b'') ''b'' s0)"
  have p0: "Put (buildEnvelope 1 ''a'') ''a'' (NewStore 1 10) = Inr s0"
    unfolding s0_def by (simp add: store_eval)
  have p1: "Put_insert (buildEnvelope 2 ''b'') ''b'' s0 = Inr s"
    unfolding s_def s0_def by (simp add: store_eval)
  from store_inv_Put[OF store_inv_NewStore p0] have "store_inv s0" .
  from store_inv_Put_insert[OF this, of "buildEnvelope 2 ''b''" "''b''"] p1 have inv: "store_inv s"
    by auto
  have sz: "size' s = 1" and c: "count s = 2" and e: "expired s = 0"
    unfolding s_def s0_def by (simp_all add: store_eval)
  from truncate_removes_oldest[of s] inv sz c e
  obtain s' where "truncate s = Inr s'" "store_inv s'" "count s' = 1" "expired s' = 1"
    by auto
  then have "store_inv (projr (truncate s))" "count (projr (truncate s)) = 1"
    "expired (projr (truncate s)) = 1"
    by simp_all
  with inv sz c show ?thesis
    unfolding s_def s0_def by simp
qed

theorem truncate_removes_oldest_counterexample:
  "size' (projr (Put_insert (buildEnvelope 2 ''b'') ''b''
      (projr (Put (buildEnvelope 1 ''a'') ''a'' (NewStore 1 10))))) = 1 \<and>
   count (projr (Put_insert (buildEnvelope 2 ''b'') ''b''
      (projr (Put (buildEnvelope 1 ''a'') ''a'' (NewStore 1 10))))) = 2 \<and>
   spec_truncate 0 (projr (Put_insert (buildEnvelope 2 ''b'') ''b''
      (projr (Put (buildEnvelope 1 ''a'') ''a'' (NewStore 1 10))))) =
     Inr (projr (Put_insert (buildEnvelope 2 ''b'') ''b''
      (projr (Put (buildEnvelope 1 ''a'') ''a'' (NewStore 1 10))))) \<and>
   truncate (projr (Put_insert (buildEnvelope 2 ''b'') ''b''
      (projr (Put (buildEnvelope 1 ''a'') ''a'' (NewStore 1 10))))) =
     Inr (projr (truncate (projr (Put_insert (buildEnvelope 2 ''b'') ''b''
      (projr (Put (buildEnvelope 1 ''a'') ''a'' (NewStore 1 10))))))) \<and>
   count (projr (truncate (projr (Put_insert (buildEnvelope 2 ''b'') ''b''
      (projr (Put (buildEnvelope 1 ''a'') ''a'' (NewStore 1 10))))))) = 1 \<and>
   index_keys (projr (Put_insert (buildEnvelope 2 ''b'') ''b''
      (projr (Put (buildEnvelope 1 ''a'') ''a'' (NewStore 1 10))))) ''a'' = [1] \<and>
   index_keys (projr (truncate (projr (Put_insert (buildEnvelope 2 ''b'') ''b''
      (projr (Put (buildEnvelope 1 ''a'') ''a'' (NewStore 1 10))))))) ''a'' = []"
  by (simp add: store_eval)

text \<open>
  C2 (as amended). For every call Get(source, start, end, kinds, limit) on any
  reachable store state that returns: every envelope in the returned slice has a
  timestamp t with start \<le> t < end and is the envelope that was put under the requested
  source at t, so that it carries the requested source id whenever the store was filled
  by Puts of envelopes under their own source id; for a limit of at least 1 the slice has
  at most limit elements; its elements appear in strictly ascending timestamp order; and
  if no index exists for that source the result is empty.
\<close>

theorem Get_window:
  assumes "reachable s" and "Get index start end' envelopeType limit s = Inr (res, s')"
  shows "(\<forall>e \<in> set res. start \<le> Timestamp e \<and> Timestamp e < end' \<and>
            (\<exists>a. indexes s index = Some a \<and>
                 tree_Get (Timestamp e) (trees s a) = Some (EnvelopeWrapper e index))) \<and>
         (filed_by_source_id s \<longrightarrow> (\<forall>e \<in> set res. SourceId e = index)) \<and>
         (1 \<le> limit \<longrightarrow> int (length res) \<le> limit) \<and>
         sorted_wrt (<) (map Timestamp res) \<and>
         (indexes s index = None \<longrightarrow> res = [])"
proof -
  note w = Get_window_inv[OF reachable_inv[OF assms(1)] assms(2)]
  have "\<forall>e \<in> set res. SourceId e = index" if "filed_by_source_id s"
    using Get_source_id[OF reachable_inv[OF assms(1)] filed_source_keyed[OF that] assms(2)] .
  moreover from w have "1 \<le> limit \<longrightarrow> int (length res) \<le> limit"
    by auto
  ultimately show ?thesis
    using w by blast
qed

theorem Get_window_witness:
  "reachable store_a134_b2 \<and> filed_by_source_id store_a134_b2 \<and> (1 :: int) \<le> 10 \<and>
   Get ''a'' 0 4 NilType 10 store_a134_b2 = Inr (projr (Get ''a'' 0 4 NilType 10 store_a134_b2)) \<and>
   map Timestamp (fst (projr (Get ''a'' 0 4 NilType 10 store_a134_b2))) = [1, 3] \<and>
   map SourceId (fst (projr (Get ''a'' 0 4 NilType 10 store_a134_b2))) = [''a'', ''a''] \<and>
   int (length (fst (projr (Get ''a'' 0 4 NilType 10 store_a134_b2)))) \<le> 10 \<and>
   sorted_wrt (<) (map Timestamp (fst (projr (Get ''a'' 0 4 NilType 10 store_a134_b2))))"
proof -
  have g: "Get ''a'' 0 4 NilType 10 store_a134_b2 =
           Inr (fst (projr (Get ''a'' 0 4 NilType 10 store_a134_b2)),
                snd (projr (Get ''a'' 0 4 NilType 10 store_a134_b2)))"
    unfolding store_a134_b2_def by (simp add: store_eval get_eval)
  have ts: "map Timestamp (fst (projr (Get ''a'' 0 4 NilType 10 store_a134_b2))) = [1, 3]"
    unfolding store_a134_b2_def by (simp add: store_eval get_eval)
  then have len: "length (fst (projr (Get ''a'' 0 4 NilType 10 store_a134_b2))) = 2"
    by (metis length_map length_Cons list.size(3) numeral_2_eq_2)
  from Get_window[OF reachable_store_a134_b2 g] filed_store_a134_b2
  have "\<forall>e \<in> set (fst (projr (Get ''a'' 0 4 NilType 10 store_a134_b2))). SourceId e = ''a''"
    and "int (length (fst (projr (Get ''a'' 0 4 NilType 10 store_a134_b2)))) \<le> 10"
    and "sorted_wrt (<) (map Timestamp (fst (projr (Get ''a'' 0 4 NilType 10 store_a134_b2))))"
    by simp_all
  moreover from this(1) len
  have "map SourceId (fst (projr (Get ''a'' 0 4 NilType 10 store_a134_b2))) = [''a'', ''a'']"
    by (auto simp: length_Suc_conv numeral_2_eq_2)
  ultimately show ?thesis
    using ts g reachable_store_a134_b2 filed_store_a134_b2 by simp
qed

theorem Get_window_counterexample:
  "reachable store_x_under_a \<and>
   Get ''a'' 0 9999 NilType 10 store_x_under_a =
     Inr (projr (Get ''a'' 0 9999 NilType 10 store_x_under_a)) \<and>
   map SourceId (fst (projr (Get ''a'' 0 9999 NilType 10 store_x_under_a))) = [''x''] \<and>
   ''x'' \<noteq> ''a'' \<and>
   reachable store_a1 \<and>
   Get ''a'' 0 9999 NilType 0 store_a1 = Inr (projr (Get ''a'' 0 9999 NilType 0 store_a1)) \<and>
   map Timestamp (fst (projr (Get ''a'' 0 9999 NilType 0 store_a1))) = [1] \<and>
   \<not> int (length (fst (projr (Get ''a'' 0 9999 NilType 0 store_a1)))) \<le> 0"
proof -
  have "Get ''a'' 0 9999 NilType 10 store_x_under_a =
          Inr (projr (Get ''a'' 0 9999 NilType 10 store_x_under_a)) \<and>
        map SourceId (fst (projr (Get ''a'' 0 9999 NilType 10 store_x_under_a))) = [''x''] \<and>
        ''x'' \<noteq> ''a''"
    unfolding store_x_under_a_def by (simp add: store_eval get_eval)
  moreover have
    "Get ''a'' 0 9999 NilType 0 store_a1 = Inr (projr (Get ''a'' 0 9999 NilType 0 store_a1)) \<and>
     map Timestamp (fst (projr (Get ''a'' 0 9999 NilType 0 store_a1))) = [1] \<and>
     \<not> int (length (fst (projr (Get ''a'' 0 9999 NilType 0 store_a1)))) \<le> 0"
    unfolding store_a1_def by (simp add: store_eval get_eval)
  ultimately show ?thesis
    using reachable_store_x_under_a reachable_store_a1 by simp
qed

text \<open>
  C5 (as amended). For every reachable store holding envelopes at timestamps 1, 2, 3, 4
  for source "a", a Get over the full window with limit 3 returns exactly the envelopes
  with timestamps [1, 2, 3]: Get takes no descending flag and returns the oldest
  matching envelopes in strictly ascending timestamp order, bounded by limit.
\<close>

theorem Get_oldest_first:
  assumes "reachable s" and "index_keys s ''a'' = [1, 2, 3, 4]"
  shows "\<exists>res s'. Get ''a'' 0 9999 NilType 3 s = Inr (res, s') \<and> map Timestamp res = [1, 2, 3]"
proof -
  from assms(2) obtain a where ix: "indexes s ''a'' = Some a"
    and keys: "map fst (entries (trees s a)) = [1, 2, 3, 4]"
    by (auto simp: index_keys_def split: option.splits)
  have "0 \<le> k \<and> k < 9999" if "k \<in> set (map fst (entries (trees s a)))" for k
    using that unfolding keys by auto
  from Get_keys_exact[OF reachable_inv[OF assms(1)] ix this, of 3] keys show ?thesis
    by simp
qed

theorem Get_oldest_first_witness:
  "reachable store_a1234 \<and> index_keys store_a1234 ''a'' = [1, 2, 3, 4] \<and>
   map Timestamp (fst (projr (Get ''a'' 0 9999 NilType 3 store_a1234))) = [1, 2, 3]"
proof -
  have k: "index_keys store_a1234 ''a'' = [1, 2, 3, 4]"
    unfolding store_a1234_def by (simp add: store_eval)
  from Get_oldest_first[OF reachable_store_a1234 k] have
    "map Timestamp (fst (projr (Get ''a'' 0 9999 NilType 3 store_a1234))) = [1, 2, 3]"
    by auto
  with k reachable_store_a1234 show ?thesis
    by simp
qed

theorem Get_oldest_first_counterexample:
  "index_keys store_a1234 ''a'' = [1, 2, 3, 4] \<and>
   Get ''a'' 0 9999 NilType 3 store_a1234 = Inr (projr (Get ''a'' 0 9999 NilType 3 store_a1234)) \<and>
   map Timestamp (fst (projr (Get ''a'' 0 9999 NilType 3 store_a1234))) = [1, 2, 3] \<and>
   map Timestamp (fst (projr (Get ''a'' 0 9999 NilType 3 store_a1234))) \<noteq> [4, 3, 2]"
  unfolding store_a1234_def by (simp add: store_eval get_eval)

text \<open>
  C10. For every call to Get whose envelope-type filter is nil or one of the five
  supported kind markers (Log, Counter, Gauge, Timer, Event), on any store, the filter
  check never panics and Get returns; with a nil filter the check accepts every
  envelope. Only a filter of another type reaches the "unknown type" panic.
\<close>

theorem Get_total:
  "(envelopeType \<in> {NilType, LogType, CounterType, GaugeType, TimerType, EventType} \<longrightarrow>
      (\<exists>res s'. Get index start end' envelopeType limit s = Inr (res, s')) \<and>
      (\<exists>ok. checkEnvelopeType e envelopeType = Inr ok)) \<and>
   checkEnvelopeType e NilType = Inr True \<and>
   checkEnvelopeType e OtherType = Inl UnknownType"
proof (intro conjI impI)
  assume "envelopeType \<in> {NilType, LogType, CounterType, GaugeType, TimerType, EventType}"
  then have ty: "envelopeType \<noteq> OtherType"
    by auto
  from Get_total_any[OF ty] show "\<exists>res s'. Get index start end' envelopeType limit s = Inr (res, s')" .
  from ty show "\<exists>ok. checkEnvelopeType e envelopeType = Inr ok"
    by (cases envelopeType) (auto simp: checkEnvelopeType_def)
qed (simp_all add: checkEnvelopeType_def)

theorem Get_total_witness:
  "Get ''a'' 0 9999 LogType 5 store_typed = Inr (projr (Get ''a'' 0 9999 LogType 5 store_typed)) \<and>
   map Timestamp (fst (projr (Get ''a'' 0 9999 LogType 5 store_typed))) = [1] \<and>
   map Timestamp (fst (projr (Get ''a'' 0 9999 NilType 10 store_typed))) = [1, 2, 3, 4, 5] \<and>
   checkEnvelopeType (buildTypedEnvelope 3 ''a'' Gauge) LogType = Inr False"
proof -
  from Get_total[of LogType "''a''" 0 9999 5 store_typed "buildTypedEnvelope 3 ''a'' Gauge"]
  obtain res s' ok where "Get ''a'' 0 9999 LogType 5 store_typed = Inr (res, s')"
    and "checkEnvelopeType (buildTypedEnvelope 3 ''a'' Gauge) LogType = Inr ok"
    by auto
  then have "Get ''a'' 0 9999 LogType 5 store_typed = Inr (projr (Get ''a'' 0 9999 LogType 5 store_typed))"
    and "checkEnvelopeType (buildTypedEnvelope 3 ''a'' Gauge) LogType = Inr False"
    by (simp_all add: get_eval)
  moreover have "map Timestamp (fst (projr (Get ''a'' 0 9999 LogType 5 store_typed))) = [1]"
    "map Timestamp (fst (projr (Get ''a'' 0 9999 NilType 10 store_typed))) = [1, 2, 3, 4, 5]"
    unfolding store_typed_def by (simp_all add: store_eval get_eval)
  ultimately show ?thesis
    by simp
qed

text \<open>
  C1. The claim: N Put calls with the identical (timestamp, source) pair leave N
  entries for that source, at the successive timestamps t, t+1, ..., t+N-1, and a count of
  N; the test "increments the timestamp as necessary to prevent overwrites" expects a
  count of 4 after Puts at the timestamps 1, 1, 3 and 4 for "a". \<open>Put\<close> does not do
  this: \<open>t.Put\<close> stores the wrapper under the envelope's own timestamp and replaces the
  entry that is there. On the Puts of that test into \<open>NewStore(5, 10)\<close> every Put returns,
  and the index of "a" then holds the three timestamps 1, 3 and 4 with a count of 3, not
  4; after the first two Puts alone it holds the one timestamp 1, not 1 and 2, with a
  count of 1, not 2; and of a Log and a Gauge envelope put at timestamp 1 only the Gauge
  envelope is left to read.
\<close>

theorem Put_collision_overwrites:
  "puts collision_puts (NewStore 5 10) = Inr (projr (puts collision_puts (NewStore 5 10))) \<and>
   index_keys (projr (puts collision_puts (NewStore 5 10))) ''a'' = [1, 3, 4] \<and>
   index_size (projr (puts collision_puts (NewStore 5 10))) ''a'' = 3 \<and>
   count (projr (puts collision_puts (NewStore 5 10))) = 3 \<and>
   count (projr (puts collision_puts (NewStore 5 10))) \<noteq> 4 \<and>
   puts (take 2 collision_puts) (NewStore 5 10) =
     Inr (projr (puts (take 2 collision_puts) (NewStore 5 10))) \<and>
   index_keys (projr (puts (take 2 collision_puts) (NewStore 5 10))) ''a'' = [1] \<and>
   index_keys (projr (puts (take 2 collision_puts) (NewStore 5 10))) ''a'' \<noteq> [1, 2] \<and>
   count (projr (puts (take 2 collision_puts) (NewStore 5 10))) = 1 \<and>
   map Message (fst (projr (Get ''a'' 0 9999 NilType 10
     (projr (puts [(buildTypedEnvelope 1 ''a'' Log, ''a''), (buildTypedEnvelope 1 ''a'' Gauge, ''a'')]
        (NewStore 5 10)))))) = [Some Gauge]"
  unfolding collision_puts_def by (simp add: store_eval get_eval)

section \<open>The claims about the batched ingress client\<close>


text \<open>
  C6. In every run of the client, whatever the peer answers, the flusher does not
  panic, and every batch it emits is sent as one request to the peer that carries
  LocalOnly = true under a context with a three-second timeout: the batches sent,
  followed by the batch the batcher still holds, are the envelopes read from the ring,
  in order. Every error the peer returns is logged, and the requests sent and the state
  of the ring and the batcher are the same as with a peer that returns other errors or
  none: an error does not stop the loop.
\<close>

theorem flusher_sends_local_only:
  "\<exists>b. run c size_b evs (client_of r) = Inr b \<and>
       (\<forall>x \<in> set (rpcs b). LocalOnly (snd x) \<and> fst x = WithTimeout Background (3 * Second)) \<and>
       filter is_failure (logged b) = failures c 0 (rpcs b) \<and>
       concat (map (\<lambda>x. Envelopes (snd x)) (rpcs b)) @ item_envelopes (pending b) =
         ring_reads evs r \<and>
       (\<forall>c'. \<exists>b'. run c' size_b evs (client_of r) = Inr b' \<and>
             rpcs b' = rpcs b \<and> pending b' = pending b \<and> ring b' = ring b)"
proof -
  from run_ok[OF flusher_inv_client_of, of c size_b evs r] obtain b where
    run: "run c size_b evs (client_of r) = Inr b" and inv: "flusher_inv c b"
    by blast
  from run_taken[OF flusher_inv_client_of run]
  have tk: "concat (map (\<lambda>x. Envelopes (snd x)) (rpcs b)) @ item_envelopes (pending b) =
         ring_reads evs r"
    by (simp add: taken_def client_of_def)
  have other: "\<exists>b'. run c' size_b evs (client_of r) = Inr b' \<and>
             rpcs b' = rpcs b \<and> pending b' = pending b \<and> ring b' = ring b" for c'
  proof -
    have "apart_from_log (client_of r) (client_of r)"
      by (simp add: apart_from_log_def)
    from run_apart_from_log[OF flusher_inv_client_of flusher_inv_client_of this,
        where c = c and c' = c' and size_b = size_b and evs = evs]
      run show ?thesis
      by (auto simp: apart_from_log_def)
  qed
  from inv have "(\<forall>x \<in> set (rpcs b). LocalOnly (snd x) \<and> fst x = WithTimeout Background (3 * Second))"
    and "filter is_failure (logged b) = failures c 0 (rpcs b)"
    by (auto simp: flusher_inv_def)
  with run tk other show ?thesis
    by blast
qed

theorem flusher_sends_local_only_witness:
  "run fails_first 2 example_run (client_of (NewOneToOne 4)) =
     Inr (projr (run fails_first 2 example_run (client_of (NewOneToOne 4)))) \<and>
   map fst (rpcs (projr (run fails_first 2 example_run (client_of (NewOneToOne 4))))) =
     [WithTimeout Background 3000000000, WithTimeout Background 3000000000] \<and>
   map snd (rpcs (projr (run fails_first 2 example_run (client_of (NewOneToOne 4))))) =
     [\<lparr>LocalOnly = True, Envelopes = [buildEnvelope 1 ''a'', buildEnvelope 2 ''a'']\<rparr>,
      \<lparr>LocalOnly = True, Envelopes = [buildEnvelope 3 ''a'']\<rparr>] \<and>
   logged (projr (run fails_first 2 example_run (client_of (NewOneToOne 4)))) =
     [FailedToWrite ''unavailable''] \<and>
   filter is_failure (logged (projr (run fails_first 2 example_run (client_of (NewOneToOne 4))))) =
     failures fails_first 0 (rpcs (projr (run fails_first 2 example_run (client_of (NewOneToOne 4)))))"
proof -
  from flusher_sends_local_only[of fails_first 2 example_run "NewOneToOne 4"] obtain b where
    run: "run fails_first 2 example_run (client_of (NewOneToOne 4)) = Inr b"
    and "filter is_failure (logged b) = failures fails_first 0 (rpcs b)"
    by blast
  then have "run fails_first 2 example_run (client_of (NewOneToOne 4)) =
     Inr (projr (run fails_first 2 example_run (client_of (NewOneToOne 4))))"
    and "filter is_failure (logged (projr (run fails_first 2 example_run (client_of (NewOneToOne 4))))) =
     failures fails_first 0 (rpcs (projr (run fails_first 2 example_run (client_of (NewOneToOne 4)))))"
    by simp_all
  moreover have "map fst (rpcs (projr (run fails_first 2 example_run (client_of (NewOneToOne 4))))) =
     [WithTimeout Background 3000000000, WithTimeout Background 3000000000]"
    "map snd (rpcs (projr (run fails_first 2 example_run (client_of (NewOneToOne 4))))) =
     [\<lparr>LocalOnly = True, Envelopes = [buildEnvelope 1 ''a'', buildEnvelope 2 ''a'']\<rparr>,
      \<lparr>LocalOnly = True, Envelopes = [buildEnvelope 3 ''a'']\<rparr>]"
    "logged (projr (run fails_first 2 example_run (client_of (NewOneToOne 4)))) =
     [FailedToWrite ''unavailable'']"
    by (simp_all add: client_eval)
  ultimately show ?thesis
    by blast
qed



end
